theory Spec2Isabelle
  imports Complex_Main
begin

section \<open>Fixed transforms of FrEIA: a shallow embedding\<close>

text \<open>
  The module \<^verbatim>\<open>FrEIA/modules/fixed_transforms.py\<close> defines four layer classes
  (\<^verbatim>\<open>PermuteRandom\<close>, \<^verbatim>\<open>FixedLinearTransform\<close>, \<^verbatim>\<open>LogitTransform\<close>,
  \<^verbatim>\<open>Fixed1x1Conv\<close>) and three deprecated aliases.

  Conventions of the embedding:
  \<^item> a tensor is a nested list; its entries are real numbers, so a result below is about
    exact arithmetic and says nothing about rounding, overflow or NaN, except where it
    is stated about the float32 sigmoid, whose rounding is modelled;
  \<^item> an instance is a record of the attributes its constructor sets;
  \<^item> a method takes the instance and returns its result together with the instance as
    the call leaves it;
  \<^item> a Python exception is the left summand of the result;
  \<^item> the parameter \<^verbatim>\<open>rev\<close> of the methods is written \<open>reverse\<close>, and the attributes
    \<^verbatim>\<open>M\<close>, \<^verbatim>\<open>M_inv\<close>, \<^verbatim>\<open>b\<close> and \<^verbatim>\<open>logDetM\<close> carry the prefix of their class, since
    the short names are taken or would capture the variables of every statement.
\<close>

subsection \<open>Exceptions\<close>

datatype py_error =
    IndexError
  | AssertionError string
  | NameError string
  | RuntimeError

fun sequence_err :: "(py_error + 'a) list \<Rightarrow> py_error + 'a list" where
  "sequence_err [] = Inr []"
| "sequence_err (Inl e # rs) = Inl e"
| "sequence_err (Inr v # rs) =
     (case sequence_err rs of Inl e \<Rightarrow> Inl e | Inr vs \<Rightarrow> Inr (v # vs))"

subsection \<open>The tensor operations the layers call\<close>

text \<open>
  The layers are written against torch. Its operations are modelled by what they compute on
  exact numbers: a vector is a list, a matrix a list of rows of one length. An operation
  that torch refuses (a shape mismatch, a singular matrix, a matrix that is not positive
  definite) raises \<^verbatim>\<open>RuntimeError\<close>.
\<close>

type_synonym vec = "real list"
type_synonym matrix = "real list list"

definition ncols :: "'a list list \<Rightarrow> nat" where
  "ncols A = (case A of [] \<Rightarrow> 0 | r # _ \<Rightarrow> length r)"

definition square :: "matrix \<Rightarrow> bool" where
  "square A = list_all (\<lambda>r. length r = length A) A"

definition identity :: "nat \<Rightarrow> matrix" where
  "identity n = map (\<lambda>i. map (\<lambda>j. if i = j then 1 else 0) [0..<n]) [0..<n]"

text \<open>\<^verbatim>\<open>A.t()\<close>\<close>

definition mat_t :: "matrix \<Rightarrow> matrix" where
  "mat_t A = map (\<lambda>j. map (\<lambda>r. r ! j) A) [0..<ncols A]"

text \<open>The row vector \<open>v\<close> times the matrix \<open>A\<close>, and \<^verbatim>\<open>X.mm(A)\<close>.\<close>

definition vecmat :: "vec \<Rightarrow> matrix \<Rightarrow> vec" where
  "vecmat v A = map (\<lambda>j. \<Sum>k<length A. v ! k * A ! k ! j) [0..<ncols A]"

definition mm :: "matrix \<Rightarrow> matrix \<Rightarrow> py_error + matrix" where
  "mm X A =
     (if list_all (\<lambda>r. length r = length A) X then Inr (map (\<lambda>r. vecmat r A) X)
      else Inl RuntimeError)"

text \<open>
  An elementwise operation of a matrix and a vector, the vector broadcast over the rows
  (\<^verbatim>\<open>Y + b\<close>, \<^verbatim>\<open>Y - b\<close>): the widths agree, or one of them is 1.
\<close>

definition broadcast_row :: "(real \<Rightarrow> real \<Rightarrow> real) \<Rightarrow> vec \<Rightarrow> vec \<Rightarrow> py_error + vec" where
  "broadcast_row f r b =
     (if length r = length b then Inr (map2 f r b)
      else if length b = 1 then Inr (map (\<lambda>v. f v (b ! 0)) r)
      else if length r = 1 then Inr (map (\<lambda>w. f (r ! 0) w) b)
      else Inl RuntimeError)"

definition broadcast :: "(real \<Rightarrow> real \<Rightarrow> real) \<Rightarrow> matrix \<Rightarrow> vec \<Rightarrow> py_error + matrix" where
  "broadcast f Y b = sequence_err (map (\<lambda>r. broadcast_row f r b) Y)"

text \<open>
  \<^verbatim>\<open>A.inverse()\<close>, by Gauss-Jordan elimination on the rows of \<open>(A | I)\<close>: a row is the
  pair of its left and its right half. Column \<open>k\<close> is cleared with the first remaining
  row whose entry there is not zero; when there is none the matrix is singular.
\<close>

type_synonym aug_row = "vec \<times> vec"

definition scale :: "real \<Rightarrow> vec \<Rightarrow> vec" where
  "scale c v = map (\<lambda>x. c * x) v"

definition sub_scaled :: "real \<Rightarrow> vec \<Rightarrow> vec \<Rightarrow> vec" where
  "sub_scaled f p r = map2 (\<lambda>x y. x - f * y) r p"

fun find_pivot :: "nat \<Rightarrow> aug_row list \<Rightarrow> (aug_row \<times> aug_row list) option" where
  "find_pivot k [] = None"
| "find_pivot k (r # rs) =
     (if fst r ! k \<noteq> 0 then Some (r, rs)
      else (case find_pivot k rs of None \<Rightarrow> None | Some (p, rest) \<Rightarrow> Some (p, r # rest)))"

definition normalise :: "nat \<Rightarrow> aug_row \<Rightarrow> aug_row" where
  "normalise k p = (scale (1 / fst p ! k) (fst p), scale (1 / fst p ! k) (snd p))"

definition eliminate :: "nat \<Rightarrow> aug_row \<Rightarrow> aug_row \<Rightarrow> aug_row" where
  "eliminate k p r = (sub_scaled (fst r ! k) (fst p) (fst r), sub_scaled (fst r ! k) (snd p) (snd r))"

primrec gauss_jordan :: "nat \<Rightarrow> nat \<Rightarrow> aug_row list \<Rightarrow> aug_row list \<Rightarrow> aug_row list option" where
  "gauss_jordan 0 k finished todo = Some finished"
| "gauss_jordan (Suc m) k finished todo =
     (case find_pivot k todo of
        None \<Rightarrow> None
      | Some (p, rest) \<Rightarrow>
          (let q = normalise k p
           in gauss_jordan m (Suc k) (map (eliminate k q) finished @ [q]) (map (eliminate k q) rest)))"

definition inverse_matrix :: "matrix \<Rightarrow> py_error + matrix" where
  "inverse_matrix A =
     (if \<not> square A then Inl RuntimeError
      else (case gauss_jordan (length A) 0 [] (zip A (identity (length A))) of
              None \<Rightarrow> Inl RuntimeError
            | Some rows \<Rightarrow> Inr (map snd rows)))"

text \<open>
  \<^verbatim>\<open>torch.cholesky(A)\<close>: the lower triangular \<open>L\<close> with a positive diagonal and
  \<open>L L\<^sup>T = A\<close>, computed row by row from the lower triangle of \<open>A\<close>; a pivot that is
  not positive means that \<open>A\<close> is not positive definite.
\<close>

primrec cholesky_offdiag :: "matrix \<Rightarrow> vec \<Rightarrow> nat \<Rightarrow> vec" where
  "cholesky_offdiag Ls a 0 = []"
| "cholesky_offdiag Ls a (Suc j) =
     (let l = cholesky_offdiag Ls a j
      in l @ [(a ! j - (\<Sum>k<j. l ! k * Ls ! j ! k)) / Ls ! j ! j])"

definition cholesky_row :: "matrix \<Rightarrow> vec \<Rightarrow> nat \<Rightarrow> vec option" where
  "cholesky_row Ls a n =
     (let i = length Ls;
          l = cholesky_offdiag Ls a i;
          d = a ! i - (\<Sum>k<i. l ! k * l ! k)
      in if d \<le> 0 then None else Some (l @ [sqrt d] @ replicate (n - Suc i) 0))"

fun cholesky_rows :: "matrix \<Rightarrow> matrix \<Rightarrow> nat \<Rightarrow> matrix option" where
  "cholesky_rows Ls [] n = Some Ls"
| "cholesky_rows Ls (a # as) n =
     (case cholesky_row Ls a n of None \<Rightarrow> None | Some l \<Rightarrow> cholesky_rows (Ls @ [l]) as n)"

definition cholesky :: "matrix \<Rightarrow> py_error + matrix" where
  "cholesky A =
     (if \<not> square A then Inl RuntimeError
      else (case cholesky_rows [] A (length A) of None \<Rightarrow> Inl RuntimeError | Some L \<Rightarrow> Inr L))"

text \<open>\<^verbatim>\<open>A.diag()\<close>\<close>

definition diag :: "matrix \<Rightarrow> vec" where
  "diag A = map (\<lambda>i. A ! i ! i) [0..<min (length A) (ncols A)]"

text \<open>The determinant, expanded along the first row, and \<^verbatim>\<open>torch.det(A)\<close>.\<close>

definition delete_at :: "nat \<Rightarrow> 'a list \<Rightarrow> 'a list" where
  "delete_at j r = take j r @ drop (Suc j) r"

fun determinant :: "matrix \<Rightarrow> real" where
  "determinant [] = 1"
| "determinant (r # rs) =
     (\<Sum>j<length r. (- 1) ^ j * r ! j * determinant (map (delete_at j) rs))"

definition det :: "matrix \<Rightarrow> py_error + real" where
  "det A = (if square A then Inr (determinant A) else Inl RuntimeError)"

text \<open>
  \<^verbatim>\<open>F.conv2d(x, W)\<close> for a kernel of size 1 x 1, given by its matrix \<open>W\<close> (output channel,
  input channel): at every position of the image, the channels are mixed by \<open>W\<close>. An
  image is a list of channels, a channel a list of rows.
\<close>

definition conv2d_image :: "real list list list \<Rightarrow> matrix \<Rightarrow> py_error + real list list list" where
  "conv2d_image img W =
     (if length img = ncols W \<and> W \<noteq> [] then
        Inr (map (\<lambda>w. map (\<lambda>h. map (\<lambda>c. \<Sum>i<length img. w ! i * img ! i ! h ! c)
                                  [0..<ncols (img ! 0)])
                       [0..<length (img ! 0)]) W)
      else Inl RuntimeError)"

definition conv2d :: "real list list list list \<Rightarrow> matrix \<Rightarrow> py_error + real list list list list" where
  "conv2d x W = sequence_err (map (\<lambda>img. conv2d_image img W) x)"

subsection \<open>PermuteRandom\<close>

record PermuteRandom =
  in_channels :: nat
  perm :: "nat list"
  perm_inv :: "nat list"

text \<open>
  The loop \<^verbatim>\<open>for i, p in enumerate(self.perm): self.perm_inv[p] = i\<close>, started on
  \<^verbatim>\<open>np.zeros_like(self.perm)\<close>. An index outside the array raises.
\<close>

fun invert_loop :: "nat \<Rightarrow> nat list \<Rightarrow> nat list \<Rightarrow> py_error + nat list" where
  "invert_loop i [] pinv = Inr pinv"
| "invert_loop i (p # ps) pinv =
     (if p < length pinv then invert_loop (Suc i) ps (pinv[p := i]) else Inl IndexError)"

text \<open>
  \<^verbatim>\<open>PermuteRandom.__init__(self, dims_in, seed)\<close>. The generator of numpy is not part of
  the module: \<open>permutation seed n\<close> stands for what \<^verbatim>\<open>np.random.permutation(n)\<close>
  returns after \<^verbatim>\<open>np.random.seed(seed)\<close>.
\<close>

definition PermuteRandom_init ::
  "(nat \<Rightarrow> nat \<Rightarrow> nat list) \<Rightarrow> nat list list \<Rightarrow> nat \<Rightarrow> py_error + PermuteRandom" where
  "PermuteRandom_init permutation dims_in seed =
     (case dims_in of
        [] \<Rightarrow> Inl IndexError
      | d # _ \<Rightarrow>
          (case d of
             [] \<Rightarrow> Inl IndexError
           | c # _ \<Rightarrow>
               (let p = permutation seed c in
                case invert_loop 0 p (replicate (length p) 0) of
                  Inl e \<Rightarrow> Inl e
                | Inr pinv \<Rightarrow> Inr \<lparr>in_channels = c, perm = p, perm_inv = pinv\<rparr>)))"

text \<open>
  \<^verbatim>\<open>t[:, idx]\<close>: every row of the batch is read at the indices of \<open>idx\<close>; an index past
  the end of a row raises.
\<close>

definition index_row :: "'a list \<Rightarrow> nat list \<Rightarrow> py_error + 'a list" where
  "index_row r idx =
     (if list_all (\<lambda>p. p < length r) idx then Inr (map (\<lambda>p. r ! p) idx) else Inl IndexError)"

definition index_columns :: "'a list list \<Rightarrow> nat list \<Rightarrow> py_error + 'a list list" where
  "index_columns t idx = sequence_err (map (\<lambda>r. index_row r idx) t)"

definition PermuteRandom_forward ::
  "PermuteRandom \<Rightarrow> 'a list list list \<Rightarrow> bool \<Rightarrow> (py_error + 'a list list list) \<times> PermuteRandom" where
  "PermuteRandom_forward self x reverse =
     (case x of
        [] \<Rightarrow> (Inl IndexError, self)
      | x0 # _ \<Rightarrow>
          (if \<not> reverse then
             (case index_columns x0 (perm self) of
                Inl e \<Rightarrow> (Inl e, self) | Inr y \<Rightarrow> (Inr [y], self))
           else
             (case index_columns x0 (perm_inv self) of
                Inl e \<Rightarrow> (Inl e, self) | Inr y \<Rightarrow> (Inr [y], self))))"

definition PermuteRandom_jacobian ::
  "PermuteRandom \<Rightarrow> 'a list list list \<Rightarrow> bool \<Rightarrow> real \<times> PermuteRandom" where
  "PermuteRandom_jacobian self x reverse = (0, self)"

definition PermuteRandom_output_dims ::
  "PermuteRandom \<Rightarrow> nat list list \<Rightarrow> (py_error + nat list list) \<times> PermuteRandom" where
  "PermuteRandom_output_dims self input_dims =
     (if length input_dims = 1 then (Inr input_dims, self)
      else (Inl (AssertionError ''Can only use 1 input''), self))"

subsection \<open>FixedLinearTransform\<close>

record FixedLinearTransform =
  lin_M :: matrix
  lin_M_inv :: matrix
  lin_b :: vec
  lin_logDetM :: real

text \<open>
  \<^verbatim>\<open>FixedLinearTransform.__init__(self, dims_in, M, b)\<close>: the attributes \<^verbatim>\<open>M\<close>,
  \<^verbatim>\<open>M_inv\<close>, \<^verbatim>\<open>b\<close> and \<^verbatim>\<open>logDetM\<close> are the fields \<open>lin_M\<close>, \<open>lin_M_inv\<close>,
  \<open>lin_b\<close> and \<open>lin_logDetM\<close>.
\<close>

definition FixedLinearTransform_init ::
  "nat list list \<Rightarrow> matrix \<Rightarrow> vec \<Rightarrow> py_error + FixedLinearTransform" where
  "FixedLinearTransform_init dims_in M b =
     (case inverse_matrix (mat_t M) of
        Inl e \<Rightarrow> Inl e
      | Inr Mi \<Rightarrow>
          (case cholesky M of
             Inl e \<Rightarrow> Inl e
           | Inr L \<Rightarrow>
               Inr \<lparr>lin_M = mat_t M, lin_M_inv = Mi, lin_b = b,
                    lin_logDetM = sum_list (map ln (diag L))\<rparr>))"

definition FixedLinearTransform_forward ::
  "FixedLinearTransform \<Rightarrow> matrix list \<Rightarrow> bool \<Rightarrow> (py_error + matrix list) \<times> FixedLinearTransform" where
  "FixedLinearTransform_forward self x reverse =
     (case x of
        [] \<Rightarrow> (Inl IndexError, self)
      | x0 # _ \<Rightarrow>
          (if \<not> reverse then
             (case mm x0 (lin_M self) of
                Inl e \<Rightarrow> (Inl e, self)
              | Inr y \<Rightarrow>
                  (case broadcast (\<lambda>u v. u + v) y (lin_b self) of
                     Inl e \<Rightarrow> (Inl e, self) | Inr z \<Rightarrow> (Inr [z], self)))
           else
             (case broadcast (\<lambda>u v. u - v) x0 (lin_b self) of
                Inl e \<Rightarrow> (Inl e, self)
              | Inr y \<Rightarrow>
                  (case mm y (lin_M_inv self) of
                     Inl e \<Rightarrow> (Inl e, self) | Inr z \<Rightarrow> (Inr [z], self)))))"

definition FixedLinearTransform_jacobian ::
  "FixedLinearTransform \<Rightarrow> matrix list \<Rightarrow> bool \<Rightarrow> (py_error + vec) \<times> FixedLinearTransform" where
  "FixedLinearTransform_jacobian self x reverse =
     (case x of
        [] \<Rightarrow> (Inl IndexError, self)
      | x0 # _ \<Rightarrow>
          (if reverse then (Inr (map uminus (replicate (length x0) (lin_logDetM self))), self)
           else (Inr (replicate (length x0) (lin_logDetM self)), self)))"

definition FixedLinearTransform_output_dims ::
  "FixedLinearTransform \<Rightarrow> nat list list \<Rightarrow> (py_error + nat list list) \<times> FixedLinearTransform" where
  "FixedLinearTransform_output_dims self input_dims = (Inr input_dims, self)"

subsection \<open>Fixed1x1Conv\<close>

text \<open>
  The attributes \<^verbatim>\<open>M\<close> and \<^verbatim>\<open>M_inv\<close> are kernels of shape (channels, channels, 1, 1);
  the fields \<open>conv_M\<close> and \<open>conv_M_inv\<close> hold their matrices.
\<close>

record Fixed1x1Conv =
  conv_M :: matrix
  conv_M_inv :: matrix
  conv_logDetM :: real

definition Fixed1x1Conv_init :: "nat list list \<Rightarrow> matrix \<Rightarrow> py_error + Fixed1x1Conv" where
  "Fixed1x1Conv_init dims_in M =
     (case inverse_matrix (mat_t M) of
        Inl e \<Rightarrow> Inl e
      | Inr Mi \<Rightarrow>
          (case det M of
             Inl e \<Rightarrow> Inl e
           | Inr d \<Rightarrow> Inr \<lparr>conv_M = mat_t M, conv_M_inv = Mi, conv_logDetM = ln \<bar>d\<bar>\<rparr>))"

definition Fixed1x1Conv_forward ::
  "Fixed1x1Conv \<Rightarrow> real list list list list list \<Rightarrow> bool \<Rightarrow>
     (py_error + real list list list list list) \<times> Fixed1x1Conv" where
  "Fixed1x1Conv_forward self x reverse =
     (case x of
        [] \<Rightarrow> (Inl IndexError, self)
      | x0 # _ \<Rightarrow>
          (if \<not> reverse then
             (case conv2d x0 (conv_M self) of
                Inl e \<Rightarrow> (Inl e, self) | Inr y \<Rightarrow> (Inr [y], self))
           else
             (case conv2d x0 (conv_M_inv self) of
                Inl e \<Rightarrow> (Inl e, self) | Inr y \<Rightarrow> (Inr [y], self))))"

definition Fixed1x1Conv_jacobian ::
  "Fixed1x1Conv \<Rightarrow> real list list list list list \<Rightarrow> bool \<Rightarrow> (py_error + vec) \<times> Fixed1x1Conv" where
  "Fixed1x1Conv_jacobian self x reverse =
     (case x of
        [] \<Rightarrow> (Inl IndexError, self)
      | x0 # _ \<Rightarrow>
          (if reverse then (Inr (map uminus (replicate (length x0) (conv_logDetM self))), self)
           else (Inr (replicate (length x0) (conv_logDetM self)), self)))"

definition Fixed1x1Conv_output_dims ::
  "Fixed1x1Conv \<Rightarrow> nat list list \<Rightarrow> (py_error + nat list list) \<times> Fixed1x1Conv" where
  "Fixed1x1Conv_output_dims self input_dims = (Inr input_dims, self)"

subsection \<open>LogitTransform\<close>

text \<open>
  \<^verbatim>\<open>last_jac\<close> is the integer \<^verbatim>\<open>0\<close> after construction and a tensor with one entry
  for each row of the batch after a call of \<^verbatim>\<open>forward\<close>.
\<close>

datatype jac_value = JNumber real | JTensor "real list"

record LogitTransform =
  scaling :: real
  last_jac :: jac_value
  mine :: real

text \<open>
  The names bound at module level when a constructor runs: the imports, the classes, the
  helper and the aliases. A name that is neither local nor among them (nor a builtin)
  raises \<^verbatim>\<open>NameError\<close> when it is read.
\<close>

definition module_globals :: "string list" where
  "module_globals =
     [''np'', ''torch'', ''nn'', ''F'', ''PermuteRandom'', ''FixedLinearTransform'',
      ''LogitTransform'', ''Fixed1x1Conv'', ''warnings'', ''_deprecated_by'',
      ''permute_layer'', ''linear_transform'', ''conv_1x1'']"

definition read_global :: "(string \<Rightarrow> 'a) \<Rightarrow> string \<Rightarrow> py_error + 'a" where
  "read_global env n = (if n \<in> set module_globals then Inr (env n) else Inl (NameError n))"

text \<open>
  \<^verbatim>\<open>LogitTransform.__init__(self, dims_in, scaling=0.99)\<close>: the third assignment reads the
  name \<^verbatim>\<open>mine\<close>, which is no parameter of the constructor; \<open>env\<close> gives the values of
  the module's globals.
\<close>

definition LogitTransform_init ::
  "(string \<Rightarrow> real) \<Rightarrow> nat list list \<Rightarrow> real \<Rightarrow> py_error + LogitTransform" where
  "LogitTransform_init env dims_in scaling_arg =
     (case read_global env ''mine'' of
        Inl e \<Rightarrow> Inl e
      | Inr m \<Rightarrow> Inr \<lparr>scaling = scaling_arg, last_jac = JNumber 0, mine = m\<rparr>)"

definition safe_log :: "real \<Rightarrow> real" where
  "safe_log v = ln (max v (1 / 10 ^ 22))"

text \<open>
  The sigmoid in exact arithmetic. It never reaches 0 or 1, which \<^verbatim>\<open>torch.sigmoid\<close> does on
  float tensors: the values that the reverse direction returns on float32 tensors are
  those of \<open>sigmoid_float32\<close> below.
\<close>

definition sigmoid :: "real \<Rightarrow> real" where
  "sigmoid v = 1 / (1 + exp (- v))"

definition LogitTransform_forward ::
  "LogitTransform \<Rightarrow> real list list list \<Rightarrow> bool \<Rightarrow>
     (py_error + real list list list) \<times> LogitTransform" where
  "LogitTransform_forward self x reverse =
     (case x of
        [] \<Rightarrow> (Inl IndexError, self)
      | x0 # _ \<Rightarrow>
          (if \<not> reverse then
             (let z = map (map (\<lambda>v. ((2 * v - 1) * scaling self + 1) / 2)) x0;
                  transformed_x = map (map (\<lambda>v. safe_log v - safe_log (1 - v))) z
              in (Inr [transformed_x],
                  self\<lparr>last_jac :=
                    JTensor (map (\<lambda>r. sum_list (map (\<lambda>v. - safe_log v - safe_log (1 - v)) r)) z)\<rparr>))
           else
             (let z = map (map sigmoid) x0
              in (Inr [z],
                  self\<lparr>last_jac :=
                    JTensor (map (\<lambda>r. sum_list (map (\<lambda>v. safe_log v + safe_log (1 - v)) r)) z)\<rparr>))))"


definition LogitTransform_output_dims ::
  "LogitTransform \<Rightarrow> nat list list \<Rightarrow> (py_error + nat list list) \<times> LogitTransform" where
  "LogitTransform_output_dims self input_dims = (Inr input_dims, self)"

subsection \<open>The sigmoid on float32 tensors\<close>









subsection \<open>The deprecated aliases\<close>

text \<open>
  \<^verbatim>\<open>_deprecated_by(orig_class)\<close> returns a subclass of \<^verbatim>\<open>orig_class\<close> whose constructor
  warns and then runs the constructor of \<^verbatim>\<open>orig_class\<close> on the same arguments. The
  subclass is named \<^verbatim>\<open>deprecated_class\<close> whatever the original is, and that is the name
  the message prints. A constructor of an alias returns the warnings it emitted with its
  result. The subclass defines no other method, so a method of an alias is the method of
  the original class.
\<close>

datatype warning = DeprecationWarning string

definition deprecated_by ::
  "string \<Rightarrow> ('args \<Rightarrow> py_error + 'inst) \<Rightarrow> 'args \<Rightarrow> warning list \<times> (py_error + 'inst)" where
  "deprecated_by orig_name orig_init args =
     ([DeprecationWarning
        (''deprecated_class is deprecated and will be removed in the public release. ''
         @ ''Use '' @ orig_name @ '' instead.'')],
      orig_init args)"

definition permute_layer ::
  "(nat \<Rightarrow> nat \<Rightarrow> nat list) \<Rightarrow> nat list list \<times> nat \<Rightarrow> warning list \<times> (py_error + PermuteRandom)" where
  "permute_layer permutation =
     deprecated_by ''PermuteRandom'' (\<lambda>(dims_in, seed). PermuteRandom_init permutation dims_in seed)"

definition linear_transform ::
  "nat list list \<times> matrix \<times> vec \<Rightarrow> warning list \<times> (py_error + FixedLinearTransform)" where
  "linear_transform =
     deprecated_by ''FixedLinearTransform'' (\<lambda>(dims_in, M, b). FixedLinearTransform_init dims_in M b)"

definition conv_1x1 :: "nat list list \<times> matrix \<Rightarrow> warning list \<times> (py_error + Fixed1x1Conv)" where
  "conv_1x1 = deprecated_by ''Fixed1x1Conv'' (\<lambda>(dims_in, M). Fixed1x1Conv_init dims_in M)"

definition permute_layer_forward ::
  "PermuteRandom \<Rightarrow> 'a list list list \<Rightarrow> bool \<Rightarrow> (py_error + 'a list list list) \<times> PermuteRandom" where
  "permute_layer_forward = PermuteRandom_forward"

definition permute_layer_jacobian ::
  "PermuteRandom \<Rightarrow> 'a list list list \<Rightarrow> bool \<Rightarrow> real \<times> PermuteRandom" where
  "permute_layer_jacobian = PermuteRandom_jacobian"

definition permute_layer_output_dims ::
  "PermuteRandom \<Rightarrow> nat list list \<Rightarrow> (py_error + nat list list) \<times> PermuteRandom" where
  "permute_layer_output_dims = PermuteRandom_output_dims"

definition linear_transform_forward ::
  "FixedLinearTransform \<Rightarrow> matrix list \<Rightarrow> bool \<Rightarrow> (py_error + matrix list) \<times> FixedLinearTransform" where
  "linear_transform_forward = FixedLinearTransform_forward"

definition linear_transform_jacobian ::
  "FixedLinearTransform \<Rightarrow> matrix list \<Rightarrow> bool \<Rightarrow> (py_error + vec) \<times> FixedLinearTransform" where
  "linear_transform_jacobian = FixedLinearTransform_jacobian"

definition linear_transform_output_dims ::
  "FixedLinearTransform \<Rightarrow> nat list list \<Rightarrow> (py_error + nat list list) \<times> FixedLinearTransform" where
  "linear_transform_output_dims = FixedLinearTransform_output_dims"

definition conv_1x1_forward ::
  "Fixed1x1Conv \<Rightarrow> real list list list list list \<Rightarrow> bool \<Rightarrow>
     (py_error + real list list list list list) \<times> Fixed1x1Conv" where
  "conv_1x1_forward = Fixed1x1Conv_forward"

definition conv_1x1_jacobian ::
  "Fixed1x1Conv \<Rightarrow> real list list list list list \<Rightarrow> bool \<Rightarrow> (py_error + vec) \<times> Fixed1x1Conv" where
  "conv_1x1_jacobian = Fixed1x1Conv_jacobian"

definition conv_1x1_output_dims ::
  "Fixed1x1Conv \<Rightarrow> nat list list \<Rightarrow> (py_error + nat list list) \<times> Fixed1x1Conv" where
  "conv_1x1_output_dims = Fixed1x1Conv_output_dims"

subsection \<open>Notions of the statements and of their proofs\<close>

text \<open>
  The product of a matrix and a column vector, \<open>M v\<close>; the rows of the identity; the
  matrix of the linear map \<open>x \<mapsto> [x[q] for q in p]\<close>, which is the Jacobian of that map;
  what it means for a list to be a permutation of \<open>0, \<dots>, n - 1\<close>, and for a
  function to behave as \<^verbatim>\<open>np.random.permutation\<close> does after seeding.
\<close>

definition matvec :: "matrix \<Rightarrow> vec \<Rightarrow> vec" where
  "matvec M v = map (\<lambda>row. \<Sum>k<length v. row ! k * v ! k) M"

definition unit_row :: "nat \<Rightarrow> nat \<Rightarrow> vec" where
  "unit_row n q = map (\<lambda>k. if k = q then 1 else 0) [0..<n]"

definition permutation_matrix :: "nat list \<Rightarrow> matrix" where
  "permutation_matrix p = map (unit_row (length p)) p"

definition is_permutation :: "nat list \<Rightarrow> bool" where
  "is_permutation p = (distinct p \<and> set p = {..<length p})"

definition numpy_permutation :: "(nat \<Rightarrow> nat \<Rightarrow> nat list) \<Rightarrow> bool" where
  "numpy_permutation f = (\<forall>seed n. distinct (f seed n) \<and> set (f seed n) = {..<n})"

text \<open>
  For the elimination: an \<open>n\<close> by \<open>n\<close> matrix; a row whose left half is its right half
  times the matrix; rows whose first \<open>k\<close> columns are those of the identity; rows of
  the right lengths; and the rows that are linear combinations of the rows of a set.
\<close>

definition is_square :: "nat \<Rightarrow> matrix \<Rightarrow> bool" where
  "is_square n A = (length A = n \<and> (\<forall>r \<in> set A. length r = n))"

definition row_ok :: "matrix \<Rightarrow> nat \<Rightarrow> aug_row \<Rightarrow> bool" where
  "row_ok A n r = (length (fst r) = n \<and> length (snd r) = n \<and> fst r = vecmat (snd r) A)"

definition cleared :: "nat \<Rightarrow> aug_row list \<Rightarrow> aug_row list \<Rightarrow> bool" where
  "cleared k finished todo =
     (length finished = k
      \<and> (\<forall>i<k. \<forall>j<k. fst (finished ! i) ! j = (if i = j then 1 else 0))
      \<and> (\<forall>r \<in> set todo. \<forall>j<k. fst r ! j = 0))"

definition row_lengths :: "nat \<Rightarrow> aug_row list \<Rightarrow> bool" where
  "row_lengths n rs = (\<forall>r \<in> set rs. length (fst r) = n \<and> length (snd r) = n)"

inductive_set row_span :: "aug_row set \<Rightarrow> aug_row set" for S :: "aug_row set" where
  base: "r \<in> S \<Longrightarrow> r \<in> row_span S"
| scaled: "r \<in> row_span S \<Longrightarrow> (scale c (fst r), scale c (snd r)) \<in> row_span S"
| added: "r \<in> row_span S \<Longrightarrow> s \<in> row_span S \<Longrightarrow>
     (map2 (\<lambda>x y. x + y) (fst r) (fst s), map2 (\<lambda>x y. x + y) (snd r) (snd s)) \<in> row_span S"

text \<open>
  For the convolution: a batch of images with \<open>n\<close> channels each, the channels of an image
  of one height and width; and the image that \<open>conv2d_image\<close> computes.
\<close>

definition image_batch :: "nat \<Rightarrow> real list list list list \<Rightarrow> bool" where
  "image_batch n x0 =
     (\<forall>img \<in> set x0. length img = n
        \<and> (\<forall>ch \<in> set img. length ch = length (img ! 0)
              \<and> (\<forall>row \<in> set ch. length row = ncols (img ! 0))))"

definition mix_channels :: "matrix \<Rightarrow> real list list list \<Rightarrow> real list list list" where
  "mix_channels W img =
     map (\<lambda>w. map (\<lambda>h. map (\<lambda>c. \<Sum>i<length img. w ! i * img ! i ! h ! c)
                               [0..<ncols (img ! 0)])
                    [0..<length (img ! 0)]) W"

section \<open>Properties\<close>

subsection \<open>The constructor of LogitTransform\<close>

text \<open>
  Claim C8. For every \<^verbatim>\<open>dims_in\<close> and every \<^verbatim>\<open>scaling\<close>, the constructor of
  \<^verbatim>\<open>LogitTransform\<close> raises \<^verbatim>\<open>NameError\<close> for the name \<^verbatim>\<open>mine\<close>: it never returns an
  instance, whatever the values of the module's globals are.
\<close>

theorem LogitTransform_init_raises:
  "LogitTransform_init env dims_in scaling_arg = Inl (NameError ''mine'')"
  by (simp add: LogitTransform_init_def read_global_def module_globals_def)

subsection \<open>Output dimensions\<close>

text \<open>
  Claim C9. \<^verbatim>\<open>output_dims(input_dims)\<close> returns \<^verbatim>\<open>input_dims\<close> unchanged for every layer
  type; the one of \<^verbatim>\<open>PermuteRandom\<close> first asserts that \<^verbatim>\<open>input_dims\<close> has exactly one
  entry, raises \<^verbatim>\<open>AssertionError\<close> when it has not, and returns normally otherwise.
\<close>

theorem output_dims_unchanged:
  "PermuteRandom_output_dims p input_dims =
     ((if length input_dims = 1 then Inr input_dims
       else Inl (AssertionError ''Can only use 1 input'')), p)
   \<and> FixedLinearTransform_output_dims l input_dims = (Inr input_dims, l)
   \<and> LogitTransform_output_dims g input_dims = (Inr input_dims, g)
   \<and> Fixed1x1Conv_output_dims c input_dims = (Inr input_dims, c)"
  by (simp add: PermuteRandom_output_dims_def FixedLinearTransform_output_dims_def
      LogitTransform_output_dims_def Fixed1x1Conv_output_dims_def)

subsection \<open>The sigmoid direction of LogitTransform\<close>

lemma sigmoid_logit: "0 < a \<Longrightarrow> 0 < b \<Longrightarrow> sigmoid (ln a - ln b) = a / (a + b)"
proof -
  assume a: "0 < a" and b: "0 < b"
  have e: "exp (- (ln a - ln b)) = b / a"
    using a b by (simp add: exp_minus exp_diff field_simps)
  have "sigmoid (ln a - ln b) = 1 / (1 + b / a)"
    by (simp only: sigmoid_def e)
  also have "\<dots> = a / (a + b)"
    using a b by (simp add: field_simps)
  finally show ?thesis .
qed

lemma safe_log_pos: "1 / 10 ^ 22 \<le> v \<Longrightarrow> safe_log v = ln v"
  by (simp add: safe_log_def max_def)

































subsection \<open>Forward, then reverse\<close>

text \<open>
  Claim C1, at a \<^verbatim>\<open>LogitTransform\<close> with the default scaling 0.99 and the input 0.25:
  the forward direction maps 0.25 to the logit of the scaled value 0.2525, and the
  reverse direction maps that back to 0.2525, not to 0.25: the reverse direction applies
  the sigmoid and does not undo the scaling.
\<close>

theorem LogitTransform_round_trip_scaled:
  "fst (LogitTransform_forward \<lparr>scaling = 99 / 100, last_jac = JNumber 0, mine = 0\<rparr> [[[1 / 4]]] False)
     = Inr [[[ln (101 / 400) - ln (299 / 400)]]]
   \<and> fst (LogitTransform_forward
            (snd (LogitTransform_forward \<lparr>scaling = 99 / 100, last_jac = JNumber 0, mine = 0\<rparr>
                    [[[1 / 4]]] False))
            [[[ln (101 / 400) - ln (299 / 400)]]] True)
     = Inr [[[101 / 400]]]
   \<and> (101 / 400 :: real) \<noteq> 1 / 4"
proof -
  have s: "sigmoid (ln (101 / 400) - ln (299 / 400)) = 101 / 400"
    using sigmoid_logit[of "101 / 400" "299 / 400"] by simp
  have l1: "safe_log (101 / 400) = ln (101 / 400)" by (rule safe_log_pos) simp
  have l2: "safe_log (299 / 400) = ln (299 / 400)" by (rule safe_log_pos) simp
  show ?thesis
    by (simp add: LogitTransform_forward_def Let_def s l1 l2)
qed

subsection \<open>What a call leaves of the instance\<close>









subsection \<open>The deprecated aliases\<close>

text \<open>
  Claim C10. For every argument list, the constructor of \<^verbatim>\<open>permute_layer\<close>,
  \<^verbatim>\<open>linear_transform\<close> and \<^verbatim>\<open>conv_1x1\<close> returns what the constructor of
  \<^verbatim>\<open>PermuteRandom\<close>, \<^verbatim>\<open>FixedLinearTransform\<close> and \<^verbatim>\<open>Fixed1x1Conv\<close> returns on the same
  arguments, after one warning; and \<^verbatim>\<open>forward\<close>, \<^verbatim>\<open>jacobian\<close> and \<^verbatim>\<open>output_dims\<close> of an
  alias return what those of the original class return.
\<close>

theorem deprecated_aliases_equivalent:
  "snd (permute_layer permutation (dims_in, seed)) = PermuteRandom_init permutation dims_in seed
   \<and> snd (linear_transform (dims_in, M, b)) = FixedLinearTransform_init dims_in M b
   \<and> snd (conv_1x1 (dims_in, M)) = Fixed1x1Conv_init dims_in M
   \<and> length (fst (permute_layer permutation (dims_in, seed))) = 1
   \<and> length (fst (linear_transform (dims_in, M, b))) = 1
   \<and> length (fst (conv_1x1 (dims_in, M))) = 1
   \<and> permute_layer_forward p (x :: 'a list list list) reverse = PermuteRandom_forward p x reverse
   \<and> permute_layer_jacobian p x reverse = PermuteRandom_jacobian p x reverse
   \<and> permute_layer_output_dims p d = PermuteRandom_output_dims p d
   \<and> linear_transform_forward l y reverse = FixedLinearTransform_forward l y reverse
   \<and> linear_transform_jacobian l y reverse = FixedLinearTransform_jacobian l y reverse
   \<and> linear_transform_output_dims l d = FixedLinearTransform_output_dims l d
   \<and> conv_1x1_forward c w reverse = Fixed1x1Conv_forward c w reverse
   \<and> conv_1x1_jacobian c w reverse = Fixed1x1Conv_jacobian c w reverse
   \<and> conv_1x1_output_dims c d = Fixed1x1Conv_output_dims c d"
  by (simp add: permute_layer_def linear_transform_def conv_1x1_def deprecated_by_def
      permute_layer_forward_def permute_layer_jacobian_def permute_layer_output_dims_def
      linear_transform_forward_def linear_transform_jacobian_def linear_transform_output_dims_def
      conv_1x1_forward_def conv_1x1_jacobian_def conv_1x1_output_dims_def)

subsection \<open>The log-determinants the constructors store\<close>

text \<open>
  What \<^verbatim>\<open>jacobian\<close> returns for an instance that the constructor built: for
  \<^verbatim>\<open>FixedLinearTransform\<close> the sum of the logarithms of the diagonal of the Cholesky
  factor of \<open>M\<close>, for \<^verbatim>\<open>Fixed1x1Conv\<close> the logarithm of \<open>|det M|\<close>, once for each
  element of the batch, and negated in reverse.
\<close>

lemma FixedLinearTransform_jacobian_value:
  assumes "FixedLinearTransform_init dims_in M b = Inr L"
  shows "\<exists>C. cholesky M = Inr C
     \<and> fst (FixedLinearTransform_jacobian L (x0 # xs) False)
         = Inr (replicate (length x0) (sum_list (map ln (diag C))))
     \<and> fst (FixedLinearTransform_jacobian L (x0 # xs) True)
         = Inr (replicate (length x0) (- sum_list (map ln (diag C))))"
  using assms
  by (auto simp: FixedLinearTransform_init_def FixedLinearTransform_jacobian_def
      split: sum.splits)

lemma Fixed1x1Conv_jacobian_value:
  assumes "Fixed1x1Conv_init dims_in M = Inr L"
  shows "fst (Fixed1x1Conv_jacobian L (x0 # xs) False)
         = Inr (replicate (length x0) (ln \<bar>determinant M\<bar>))
     \<and> fst (Fixed1x1Conv_jacobian L (x0 # xs) True)
         = Inr (replicate (length x0) (- ln \<bar>determinant M\<bar>))"
  using assms
  by (auto simp: Fixed1x1Conv_init_def Fixed1x1Conv_jacobian_def det_def
      split: sum.splits if_splits)

lemma inverse_example:
  "inverse_matrix [[4, 2], [2, 5]] = Inr [[5 / 16, - 1 / 8], [- 1 / 8, 1 / 4]]"
  by (simp add: inverse_matrix_def square_def identity_def normalise_def eliminate_def
      scale_def sub_scaled_def upt_rec)

lemma cholesky_example: "cholesky [[4, 2], [2, 5]] = Inr [[2, 0], [1, 2]]"
  by (simp add: cholesky_def cholesky_row_def square_def Let_def eval_nat_numeral)

lemma mat_t_example: "mat_t [[4, 2], [2, 5]] = [[4, 2], [2, 5]]"
  by (simp add: mat_t_def ncols_def upt_rec)

text \<open>
  Claim C2, at the symmetric positive definite matrix \<open>M = [[4, 2], [2, 5]]\<close>, whose
  determinant is 16 and whose Cholesky factor is \<open>[[2, 0], [1, 2]]\<close>: the constructor
  stores the sum of the logarithms of the factor's diagonal, \<open>ln 2 + ln 2 = ln 4\<close>, and
  \<^verbatim>\<open>jacobian\<close> returns it for every row of the batch; \<open>ln |det M|\<close> is \<open>ln 16\<close>.
\<close>

theorem FixedLinearTransform_jacobian_cholesky:
  "FixedLinearTransform_init [[2]] [[4, 2], [2, 5]] [0, 0]
     = Inr \<lparr>lin_M = [[4, 2], [2, 5]], lin_M_inv = [[5 / 16, - 1 / 8], [- 1 / 8, 1 / 4]],
            lin_b = [0, 0], lin_logDetM = ln 4\<rparr>
   \<and> fst (FixedLinearTransform_jacobian
            \<lparr>lin_M = [[4, 2], [2, 5]], lin_M_inv = [[5 / 16, - 1 / 8], [- 1 / 8, 1 / 4]],
             lin_b = [0, 0], lin_logDetM = ln 4\<rparr> [[[1, 1]]] False) = Inr [ln 4]
   \<and> det [[4, 2], [2, 5]] = Inr 16
   \<and> ln 4 \<noteq> ln \<bar>16 :: real\<bar>"
proof -
  have "ln 2 + ln 2 = ln (2 * 2 :: real)" by (subst ln_mult) simp_all
  then have l: "ln 2 + ln 2 = ln (4 :: real)" by simp
  have d: "diag [[2, 0], [1, 2]] = [2, 2]"
    by (simp add: diag_def ncols_def upt_rec)
  have n: "ln 4 \<noteq> ln \<bar>16 :: real\<bar>" by simp
  have dt: "det [[4, 2], [2, 5]] = Inr 16"
    by (simp add: det_def square_def delete_at_def eval_nat_numeral)
  show ?thesis
    using n dt
    by (simp add: FixedLinearTransform_init_def mat_t_example inverse_example cholesky_example d l
        FixedLinearTransform_jacobian_def)
qed

text \<open>
  Claim C3, at one channel, \<open>M = [[2]]\<close>, and an image of height 1 and width 2: the
  forward direction doubles both entries, so its Jacobian is \<open>[[2, 0], [0, 2]]\<close> with
  log-determinant \<open>ln 4 = 1 * 2 * ln |det M|\<close>; \<^verbatim>\<open>jacobian\<close> returns \<open>ln |det M| = ln 2\<close>,
  whatever the height and the width are.
\<close>

theorem Fixed1x1Conv_jacobian_one_position:
  "Fixed1x1Conv_init [[1, 1, 2]] [[2]]
     = Inr \<lparr>conv_M = [[2]], conv_M_inv = [[1 / 2]], conv_logDetM = ln 2\<rparr>
   \<and> fst (Fixed1x1Conv_forward \<lparr>conv_M = [[2]], conv_M_inv = [[1 / 2]], conv_logDetM = ln 2\<rparr>
            [[[[[3, 5]]]]] False) = Inr [[[[[6, 10]]]]]
   \<and> fst (Fixed1x1Conv_jacobian \<lparr>conv_M = [[2]], conv_M_inv = [[1 / 2]], conv_logDetM = ln 2\<rparr>
            [[[[[3, 5]]]]] False) = Inr [ln 2]
   \<and> ln 2 \<noteq> 1 * 2 * ln \<bar>2 :: real\<bar>
   \<and> ln 2 \<noteq> ln \<bar>determinant [[2, 0], [0, 2]]\<bar>"
proof -
  have i: "inverse_matrix [[2]] = Inr [[1 / 2]]"
    by (simp add: inverse_matrix_def square_def identity_def normalise_def
        eliminate_def scale_def sub_scaled_def)
  have t: "mat_t [[2]] = [[2]]" by (simp add: mat_t_def ncols_def)
  have dt: "det [[2]] = Inr 2" by (simp add: det_def square_def delete_at_def)
  have d2: "determinant [[2, 0], [0, 2]] = 4" by (simp add: delete_at_def eval_nat_numeral)
  have c: "conv2d [[[[3, 5]]]] [[2]] = Inr [[[[6, 10]]]]"
    by (simp add: conv2d_def conv2d_image_def ncols_def upt_rec)
  show ?thesis
    by (simp add: Fixed1x1Conv_init_def i t dt d2 c Fixed1x1Conv_forward_def
        Fixed1x1Conv_jacobian_def del: determinant.simps)
qed

subsection \<open>The permutation of PermuteRandom\<close>

lemma delete_at_unit_row:
  assumes "q < n" "q' < n" "q' \<noteq> q"
  shows "delete_at q (unit_row n q') = unit_row (n - 1) (if q' < q then q' else q' - 1)"
proof (rule nth_equalityI)
  show "length (delete_at q (unit_row n q')) = length (unit_row (n - 1) (if q' < q then q' else q' - 1))"
    using assms by (simp add: delete_at_def unit_row_def)
next
  fix i assume "i < length (delete_at q (unit_row n q'))"
  then have i: "i < n - 1" using assms by (simp add: delete_at_def unit_row_def)
  show "delete_at q (unit_row n q') ! i = unit_row (n - 1) (if q' < q then q' else q' - 1) ! i"
  proof (cases "i < q")
    case True
    then show ?thesis using assms i
      by (auto simp: delete_at_def unit_row_def nth_append)
  next
    case False
    then show ?thesis using assms i
      by (auto simp: delete_at_def unit_row_def nth_append)
  qed
qed

lemma determinant_unit_rows:
  "length p = n \<Longrightarrow> distinct p \<Longrightarrow> set p \<subseteq> {..<n} \<Longrightarrow>
     \<bar>determinant (map (unit_row n) p)\<bar> = 1"
proof (induction n arbitrary: p)
  case 0
  then show ?case by simp
next
  case (Suc n)
  then obtain q qs where p: "p = q # qs" by (cases p) auto
  let ?s = "\<lambda>q'. if q' < q then q' else q' - 1"
  have q: "q < Suc n" using Suc.prems p by auto
  have qs: "\<forall>q' \<in> set qs. q' < Suc n \<and> q' \<noteq> q" using Suc.prems p by auto
  have del: "map (delete_at q) (map (unit_row (Suc n)) qs) = map (unit_row n) (map ?s qs)"
    using qs q by (simp add: delete_at_unit_row)
  have inj: "inj_on ?s (set qs)"
  proof (rule inj_onI)
    fix x y assume xy: "x \<in> set qs" "y \<in> set qs" and eq: "?s x = ?s y"
    from xy qs have "x \<noteq> q" "y \<noteq> q" by auto
    with eq show "x = y" by (auto split: if_splits)
  qed
  have ih: "\<bar>determinant (map (unit_row n) (map ?s qs))\<bar> = 1"
  proof (rule Suc.IH)
    show "length (map ?s qs) = n" using Suc.prems p by simp
    show "distinct (map ?s qs)" using Suc.prems p inj by (simp add: distinct_map)
    show "set (map ?s qs) \<subseteq> {..<n}" using qs q by (auto split: if_splits)
  qed
  have "determinant (map (unit_row (Suc n)) p)
      = (\<Sum>j<Suc n. (- 1) ^ j * unit_row (Suc n) q ! j
            * determinant (map (delete_at j) (map (unit_row (Suc n)) qs)))"
    by (simp add: p unit_row_def del: upt_Suc)
  also have "\<dots> = (\<Sum>j<Suc n. if j = q then (- 1) ^ q
            * determinant (map (delete_at q) (map (unit_row (Suc n)) qs)) else 0)"
    by (rule sum.cong) (auto simp: unit_row_def simp del: upt_Suc)
  also have "\<dots> = (- 1) ^ q * determinant (map (delete_at q) (map (unit_row (Suc n)) qs))"
    using q by simp
  finally show ?case using ih by (simp add: del abs_mult power_abs del: map_map)
qed

lemma determinant_permutation_matrix:
  "is_permutation p \<Longrightarrow> \<bar>determinant (permutation_matrix p)\<bar> = 1"
  unfolding is_permutation_def permutation_matrix_def
  by (rule determinant_unit_rows) auto

lemma invert_loop_spec:
  "\<forall>p \<in> set ps. p < length pinv \<Longrightarrow> distinct ps \<Longrightarrow>
     \<exists>r. invert_loop i ps pinv = Inr r \<and> length r = length pinv
       \<and> (\<forall>j < length ps. r ! (ps ! j) = i + j)
       \<and> (\<forall>k. k \<notin> set ps \<longrightarrow> r ! k = pinv ! k)"
proof (induction ps arbitrary: i pinv)
  case Nil
  then show ?case by simp
next
  case (Cons p ps)
  have "\<forall>p' \<in> set ps. p' < length (pinv[p := i])" using Cons.prems by simp
  moreover have "distinct ps" using Cons.prems by simp
  ultimately obtain r where r: "invert_loop (Suc i) ps (pinv[p := i]) = Inr r"
      "length r = length (pinv[p := i])"
      "\<forall>j < length ps. r ! (ps ! j) = Suc i + j"
      "\<forall>k. k \<notin> set ps \<longrightarrow> r ! k = pinv[p := i] ! k"
    using Cons.IH[of "pinv[p := i]" "Suc i"] by blast
  have pn: "p \<notin> set ps" "p < length pinv" using Cons.prems by auto
  have "r ! p = i" using r(4) pn by simp
  moreover have "\<forall>j < length (p # ps). r ! ((p # ps) ! j) = i + j"
  proof (intro allI impI)
    fix j assume "j < length (p # ps)"
    then show "r ! ((p # ps) ! j) = i + j"
      using r(3) \<open>r ! p = i\<close> by (cases j) auto
  qed
  moreover have "\<forall>k. k \<notin> set (p # ps) \<longrightarrow> r ! k = pinv ! k"
    using r(4) by auto
  ultimately show ?case using r(1,2) pn by simp
qed

lemma invert_loop_permutation:
  assumes "is_permutation p"
  shows "\<exists>r. invert_loop 0 p (replicate (length p) 0) = Inr r \<and> is_permutation r
           \<and> length r = length p
           \<and> (\<forall>j < length p. r ! (p ! j) = j) \<and> (\<forall>k < length p. p ! (r ! k) = k)"
proof -
  let ?n = "length p"
  have d: "distinct p" and s: "set p = {..< ?n}" using assms by (auto simp: is_permutation_def)
  obtain r where r: "invert_loop 0 p (replicate ?n 0) = Inr r" "length r = ?n"
      "\<forall>j < ?n. r ! (p ! j) = j"
    using invert_loop_spec[of p "replicate ?n 0" 0] d s by auto
  have inv_of: "p ! (r ! k) = k \<and> r ! k < ?n" if "k < ?n" for k
  proof -
    from that s have "k \<in> set p" by simp
    then obtain j where "j < ?n" "p ! j = k" by (auto simp: in_set_conv_nth)
    then show ?thesis using r(3) by auto
  qed
  have "distinct r"
    unfolding distinct_conv_nth
  proof (intro allI impI)
    fix a b assume "a < length r" "b < length r" "a \<noteq> b"
    then show "r ! a \<noteq> r ! b" using inv_of r(2) by metis
  qed
  moreover have "set r = {..<length r}"
  proof
    show "set r \<subseteq> {..<length r}" using inv_of r(2) by (auto simp: in_set_conv_nth)
    show "{..<length r} \<subseteq> set r"
    proof
      fix j assume "j \<in> {..<length r}"
      then have j: "j < ?n" using r(2) by simp
      then have "p ! j < ?n" using s nth_mem[of j p] by auto
      moreover have "r ! (p ! j) = j" using r(3) j by simp
      ultimately show "j \<in> set r" using r(2) by (metis nth_mem)
    qed
  qed
  ultimately show ?thesis using r inv_of by (auto simp: is_permutation_def)
qed

lemma sequence_err_map:
  "\<forall>x \<in> set xs. f x = Inr (g x) \<Longrightarrow> sequence_err (map f xs) = Inr (map g xs)"
  by (induction xs) simp_all

lemma numpy_permutation_is_permutation:
  assumes "numpy_permutation f"
  shows "is_permutation (f seed n) \<and> length (f seed n) = n"
proof -
  have d: "distinct (f seed n)" and s: "set (f seed n) = {..<n}"
    using assms by (auto simp: numpy_permutation_def)
  have "length (f seed n) = card (set (f seed n))" using d by (simp add: distinct_card)
  then have "length (f seed n) = n" using s by simp
  then show ?thesis using d s by (simp add: is_permutation_def)
qed

lemma PermuteRandom_init_Inr:
  assumes np: "numpy_permutation permutation"
    and init: "PermuteRandom_init permutation dims_in seed = Inr L"
  shows "is_permutation (perm L) \<and> is_permutation (perm_inv L)
       \<and> length (perm L) = in_channels L \<and> length (perm_inv L) = in_channels L
       \<and> (\<forall>j < in_channels L. perm_inv L ! (perm L ! j) = j)
       \<and> (\<forall>k < in_channels L. perm L ! (perm_inv L ! k) = k)"
proof -
  from init obtain d ds c cs where dm: "dims_in = d # ds" "d = c # cs"
    by (auto simp: PermuteRandom_init_def split: list.splits)
  let ?p = "permutation seed c"
  have p: "is_permutation ?p" "length ?p = c"
    using numpy_permutation_is_permutation[OF np] by auto
  from invert_loop_permutation[OF p(1)] obtain r where
    r: "invert_loop 0 ?p (replicate (length ?p) 0) = Inr r" "is_permutation r"
       "length r = length ?p" "\<forall>j < length ?p. r ! (?p ! j) = j" "\<forall>k < length ?p. ?p ! (r ! k) = k"
    by blast
  have "L = \<lparr>in_channels = c, perm = ?p, perm_inv = r\<rparr>"
    using init r(1) by (simp add: PermuteRandom_init_def dm Let_def)
  then show ?thesis using p r by simp
qed

lemma matvec_unit_row:
  assumes "q < length r"
  shows "(\<Sum>k<length r. unit_row (length r) q ! k * r ! k) = r ! q"
proof -
  have "(\<Sum>k<length r. unit_row (length r) q ! k * r ! k)
      = (\<Sum>k<length r. if k = q then r ! q else 0)"
    by (rule sum.cong) (auto simp: unit_row_def)
  then show ?thesis using assms by simp
qed

lemma index_row_permutation_matrix:
  assumes "is_permutation p" "length r = length p"
  shows "index_row r p = Inr (matvec (permutation_matrix p) r)"
proof -
  have b: "\<forall>q \<in> set p. q < length r" using assms by (auto simp: is_permutation_def)
  then have "map (\<lambda>q. r ! q) p = matvec (permutation_matrix p) r"
    using assms(2) matvec_unit_row[of _ r]
    by (simp add: matvec_def permutation_matrix_def)
  then show ?thesis using b by (simp add: index_row_def list_all_iff)
qed

lemma index_columns_permutation_matrix:
  assumes "is_permutation p" "\<forall>r \<in> set x0. length r = length p"
  shows "index_columns x0 p = Inr (map (matvec (permutation_matrix p)) x0)"
  unfolding index_columns_def
  by (rule sequence_err_map) (use assms index_row_permutation_matrix in auto)

text \<open>
  Claim C7. \<^verbatim>\<open>PermuteRandom.jacobian\<close> returns 0 for every instance, input and direction.
  For an instance built by the constructor (from a generator that returns permutations)
  and a batch whose rows have \<^verbatim>\<open>in_channels\<close> entries, \<^verbatim>\<open>forward\<close> multiplies each row
  by the permutation matrix of \<^verbatim>\<open>perm\<close> (of \<^verbatim>\<open>perm_inv\<close> in reverse), which is therefore
  the Jacobian of the map, and the value \<^verbatim>\<open>jacobian\<close> returns is the logarithm of the
  absolute value of that matrix's determinant, which is 1.
\<close>

theorem PermuteRandom_jacobian_log_det:
  assumes np: "numpy_permutation permutation"
    and init: "PermuteRandom_init permutation dims_in seed = Inr L"
    and x: "\<forall>r \<in> set x0. length r = in_channels L"
  shows "fst (PermuteRandom_jacobian self y reverse) = 0
       \<and> fst (PermuteRandom_forward L (x0 # xs) reverse)
           = Inr [map (matvec (permutation_matrix (if reverse then perm_inv L else perm L))) x0]
       \<and> fst (PermuteRandom_jacobian L (x0 # xs) reverse)
           = ln \<bar>determinant (permutation_matrix (if reverse then perm_inv L else perm L))\<bar>
       \<and> \<bar>determinant (permutation_matrix (if reverse then perm_inv L else perm L))\<bar> = 1"
proof -
  have L: "is_permutation (perm L)" "is_permutation (perm_inv L)"
      "length (perm L) = in_channels L" "length (perm_inv L) = in_channels L"
    using PermuteRandom_init_Inr[OF np init] by auto
  have "index_columns x0 (perm L) = Inr (map (matvec (permutation_matrix (perm L))) x0)"
    by (rule index_columns_permutation_matrix[OF L(1)]) (simp add: x L)
  moreover have "index_columns x0 (perm_inv L) = Inr (map (matvec (permutation_matrix (perm_inv L))) x0)"
    by (rule index_columns_permutation_matrix[OF L(2)]) (simp add: x L)
  ultimately show ?thesis
    using determinant_permutation_matrix[OF L(1)] determinant_permutation_matrix[OF L(2)]
    by (simp add: PermuteRandom_jacobian_def PermuteRandom_forward_def)
qed

lemma reversed_range_permutation: "numpy_permutation (\<lambda>seed n. rev [0..<n])"
  by (auto simp: numpy_permutation_def)

theorem PermuteRandom_jacobian_log_det_witness:
  "PermuteRandom_init (\<lambda>seed n. rev [0..<n]) [[3]] 0
     = Inr \<lparr>in_channels = 3, perm = [2, 1, 0], perm_inv = [2, 1, 0]\<rparr>
   \<and> fst (PermuteRandom_forward \<lparr>in_channels = 3, perm = [2, 1, 0], perm_inv = [2, 1, 0]\<rparr>
            [[[5, 6, 7 :: real]]] False)
       = Inr [[matvec (permutation_matrix [2, 1, 0]) [5, 6, 7]]]
   \<and> fst (PermuteRandom_jacobian \<lparr>in_channels = 3, perm = [2, 1, 0], perm_inv = [2, 1, 0]\<rparr>
            [[[5, 6, 7 :: real]]] False)
       = ln \<bar>determinant (permutation_matrix [2, 1, 0])\<bar>"
proof -
  have i: "PermuteRandom_init (\<lambda>seed n. rev [0..<n]) [[3]] 0
     = Inr \<lparr>in_channels = 3, perm = [2, 1, 0], perm_inv = [2, 1, 0]\<rparr>"
    by (simp add: PermuteRandom_init_def Let_def upt_rec)
  have x: "\<forall>r \<in> set [[5, 6, 7 :: real]].
      length r = in_channels \<lparr>in_channels = 3, perm = [2, 1, 0], perm_inv = [2, 1, 0]\<rparr>"
    by simp
  show ?thesis
    using i PermuteRandom_jacobian_log_det[OF reversed_range_permutation i x,
        where self = "\<lparr>in_channels = 3, perm = [2, 1, 0], perm_inv = [2, 1, 0]\<rparr>"
          and y = "[[[5, 6, 7 :: real]]]" and reverse = False and xs = "[]"]
    by simp
qed

subsection \<open>The inverse that the elimination returns\<close>

text \<open>
  When \<open>inverse_matrix A\<close> returns \<open>N\<close>, then \<open>A\<close> and \<open>N\<close> are square of one size and
  \<open>N A = A N = I\<close>. Every step of the elimination keeps each row \<open>(a | b)\<close> with
  \<open>a = b A\<close>, which gives \<open>N A = I\<close> at the end; and every row of \<open>(A | I)\<close> stays a
  linear combination of the current rows, which gives \<open>A N = I\<close>.
\<close>

lemma square_is_square: "square A = is_square (length A) A"
  by (simp add: square_def is_square_def list_all_iff)

lemma ncols_is_square: "is_square n A \<Longrightarrow> ncols A = n"
  by (cases A) (auto simp: is_square_def ncols_def)

lemma identity_unit_rows: "identity n = map (unit_row n) [0..<n]"
  by (auto simp: identity_def unit_row_def)

lemma is_square_identity: "is_square n (identity n)"
  by (auto simp: is_square_def identity_def)

lemma length_vecmat: "length (vecmat v A) = ncols A"
  by (simp add: vecmat_def)

lemma nth_vecmat: "j < ncols A \<Longrightarrow> vecmat v A ! j = (\<Sum>k<length A. v ! k * A ! k ! j)"
  by (simp add: vecmat_def)

lemma length_scale: "length (scale c v) = length v"
  by (simp add: scale_def)

lemma length_sub_scaled: "length (sub_scaled f p r) = min (length r) (length p)"
  by (simp add: sub_scaled_def)

lemma nth_scale: "k < length v \<Longrightarrow> scale c v ! k = c * v ! k"
  by (simp add: scale_def)

lemma nth_sub_scaled:
  "k < length r \<Longrightarrow> k < length p \<Longrightarrow> sub_scaled f p r ! k = r ! k - f * p ! k"
  by (simp add: sub_scaled_def)

lemma vecmat_scale:
  assumes "length v = length A"
  shows "vecmat (scale c v) A = scale c (vecmat v A)"
proof (rule nth_equalityI)
  show "length (vecmat (scale c v) A) = length (scale c (vecmat v A))"
    by (simp add: length_vecmat length_scale)
next
  fix j assume "j < length (vecmat (scale c v) A)"
  then have j: "j < ncols A" by (simp add: length_vecmat)
  have "(\<Sum>k<length A. scale c v ! k * A ! k ! j) = (\<Sum>k<length A. c * (v ! k * A ! k ! j))"
    by (rule sum.cong) (simp_all add: nth_scale assms)
  then show "vecmat (scale c v) A ! j = scale c (vecmat v A) ! j"
    using j by (simp add: nth_vecmat nth_scale length_vecmat sum_distrib_left)
qed

lemma vecmat_sub_scaled:
  assumes "length u = length A" "length w = length A"
  shows "vecmat (sub_scaled f w u) A = sub_scaled f (vecmat w A) (vecmat u A)"
proof (rule nth_equalityI)
  show "length (vecmat (sub_scaled f w u) A) = length (sub_scaled f (vecmat w A) (vecmat u A))"
    by (simp add: length_vecmat length_sub_scaled)
next
  fix j assume "j < length (vecmat (sub_scaled f w u) A)"
  then have j: "j < ncols A" by (simp add: length_vecmat)
  have "(\<Sum>k<length A. sub_scaled f w u ! k * A ! k ! j)
      = (\<Sum>k<length A. u ! k * A ! k ! j - f * (w ! k * A ! k ! j))"
    by (rule sum.cong) (simp_all add: nth_sub_scaled assms algebra_simps)
  then show "vecmat (sub_scaled f w u) A ! j = sub_scaled f (vecmat w A) (vecmat u A) ! j"
    using j by (simp add: nth_vecmat nth_sub_scaled length_vecmat sum_subtractf sum_distrib_left)
qed

lemma vecmat_add:
  assumes "length u = length A" "length w = length A"
  shows "vecmat (map2 (\<lambda>x y. x + y) u w) A = map2 (\<lambda>x y. x + y) (vecmat u A) (vecmat w A)"
proof (rule nth_equalityI)
  show "length (vecmat (map2 (\<lambda>x y. x + y) u w) A)
      = length (map2 (\<lambda>x y. x + y) (vecmat u A) (vecmat w A))"
    by (simp add: length_vecmat)
next
  fix j assume "j < length (vecmat (map2 (\<lambda>x y. x + y) u w) A)"
  then have j: "j < ncols A" by (simp add: length_vecmat)
  have "(\<Sum>k<length A. map2 (\<lambda>x y. x + y) u w ! k * A ! k ! j)
      = (\<Sum>k<length A. u ! k * A ! k ! j + w ! k * A ! k ! j)"
    by (rule sum.cong) (simp_all add: assms algebra_simps)
  then show "vecmat (map2 (\<lambda>x y. x + y) u w) A ! j
      = map2 (\<lambda>x y. x + y) (vecmat u A) (vecmat w A) ! j"
    using j by (simp add: nth_vecmat length_vecmat sum.distrib)
qed

lemma vecmat_unit_row:
  assumes "is_square n A" "i < n"
  shows "vecmat (unit_row n i) A = A ! i"
proof (rule nth_equalityI)
  have "A ! i \<in> set A" using assms by (simp add: is_square_def)
  then show l: "length (vecmat (unit_row n i) A) = length (A ! i)"
    using assms by (simp add: length_vecmat ncols_is_square is_square_def)
  fix j assume "j < length (vecmat (unit_row n i) A)"
  then have j: "j < ncols A" by (simp add: length_vecmat)
  have "(\<Sum>k<length A. unit_row n i ! k * A ! k ! j) = (\<Sum>k<n. if k = i then A ! i ! j else 0)"
    using assms by (intro sum.cong) (auto simp: unit_row_def is_square_def)
  then show "vecmat (unit_row n i) A ! j = A ! i ! j"
    using j assms by (simp add: nth_vecmat)
qed

lemma row_ok_normalise:
  assumes "is_square n A" "row_ok A n p"
  shows "row_ok A n (normalise k p)"
proof -
  have l: "length (fst p) = n" "length (snd p) = n" and e: "fst p = vecmat (snd p) A"
    using assms(2) by (auto simp: row_ok_def)
  have a: "length A = n" using assms(1) by (simp add: is_square_def)
  have "scale c (fst p) = vecmat (scale c (snd p)) A" for c
    by (subst e) (rule vecmat_scale[symmetric], simp add: l a)
  then show ?thesis
    by (simp add: row_ok_def normalise_def length_scale l length_vecmat ncols_is_square[OF assms(1)])
qed

lemma row_ok_eliminate:
  assumes "is_square n A" "row_ok A n q" "row_ok A n r"
  shows "row_ok A n (eliminate k q r)"
proof -
  have lq: "length (fst q) = n" "length (snd q) = n" and eq: "fst q = vecmat (snd q) A"
    using assms(2) by (auto simp: row_ok_def)
  have lr: "length (fst r) = n" "length (snd r) = n" and er: "fst r = vecmat (snd r) A"
    using assms(3) by (auto simp: row_ok_def)
  have a: "length A = n" using assms(1) by (simp add: is_square_def)
  have "sub_scaled f (fst q) (fst r) = vecmat (sub_scaled f (snd q) (snd r)) A" for f
    by (subst eq, subst er) (rule vecmat_sub_scaled[symmetric], simp_all add: lq lr a)
  then show ?thesis
    by (simp add: row_ok_def eliminate_def length_sub_scaled lq lr length_vecmat ncols_is_square[OF assms(1)])
qed

lemma find_pivot_Some:
  "find_pivot k rs = Some (p, rest) \<Longrightarrow>
     fst p ! k \<noteq> 0 \<and> set rs = insert p (set rest) \<and> length rs = Suc (length rest)"
proof (induction rs arbitrary: rest)
  case Nil
  then show ?case by simp
next
  case (Cons r rs)
  show ?case
  proof (cases "fst r ! k \<noteq> 0")
    case True
    then show ?thesis using Cons.prems by auto
  next
    case False
    then obtain rest' where "find_pivot k rs = Some (p, rest')" "rest = r # rest'"
      using Cons.prems by (auto split: option.splits)
    then show ?thesis using Cons.IH[of rest'] by auto
  qed
qed

lemma normalise_entries:
  assumes "length (fst p) = n" "k < n" "fst p ! k \<noteq> 0" "\<forall>j<k. fst p ! j = 0"
  shows "fst (normalise k p) ! k = 1" "\<forall>j<k. fst (normalise k p) ! j = 0"
        "length (fst (normalise k p)) = n"
  using assms by (simp_all add: normalise_def nth_scale length_scale)

lemma eliminate_entries:
  assumes "length (fst q) = n" "length (fst r) = n" "k < n"
    "fst q ! k = 1" "\<forall>j<k. fst q ! j = 0"
  shows "fst (eliminate k q r) ! k = 0" "\<forall>j<k. fst (eliminate k q r) ! j = fst r ! j"
  using assms by (simp_all add: eliminate_def nth_sub_scaled)

lemma cleared_step:
  assumes len: "\<forall>r \<in> set (finished @ p # rest). length (fst r) = n"
    and k: "k < n"
    and c: "cleared k finished (p # rest)"
    and piv: "fst p ! k \<noteq> 0"
  shows "cleared (Suc k) (map (eliminate k (normalise k p)) finished @ [normalise k p])
           (map (eliminate k (normalise k p)) rest)"
proof -
  let ?q = "normalise k p"
  have lf: "length finished = k" using c by (simp add: cleared_def)
  have p0: "\<forall>j<k. fst p ! j = 0" using c by (simp add: cleared_def)
  have lp: "length (fst p) = n" using len by simp
  have q: "fst ?q ! k = 1" "\<forall>j<k. fst ?q ! j = 0" "length (fst ?q) = n"
    using normalise_entries[OF lp k piv p0] by auto
  have el: "fst (eliminate k ?q r) ! k = 0 \<and> (\<forall>j<k. fst (eliminate k ?q r) ! j = fst r ! j)"
    if "length (fst r) = n" for r
    using eliminate_entries[OF q(3) that k q(1) q(2)] by simp
  have fin: "fst ((map (eliminate k ?q) finished @ [?q]) ! i) ! j = (if i = j then 1 else 0)"
    if "i < Suc k" "j < Suc k" for i j
  proof (cases "i < k")
    case True
    then have r: "finished ! i \<in> set finished" using lf by simp
    then have lr: "length (fst (finished ! i)) = n" using len by simp
    have e: "(map (eliminate k ?q) finished @ [?q]) ! i = eliminate k ?q (finished ! i)"
      using True lf by (simp add: nth_append)
    show ?thesis
    proof (cases "j < k")
      case True
      then show ?thesis using el[OF lr] c \<open>i < k\<close> by (simp add: e cleared_def)
    next
      case False
      then have "j = k" using that by simp
      then show ?thesis using el[OF lr] \<open>i < k\<close> by (simp add: e)
    qed
  next
    case False
    then have "i = k" using that by simp
    have e: "(map (eliminate k ?q) finished @ [?q]) ! k = ?q"
      using lf by (simp add: nth_append)
    show ?thesis using q that \<open>i = k\<close> by (cases "j < k") (auto simp: e less_Suc_eq)
  qed
  have td: "fst r' ! j = 0" if "r' \<in> set (map (eliminate k ?q) rest)" "j < Suc k" for r' j
  proof -
    from that obtain r where r: "r \<in> set rest" "r' = eliminate k ?q r" by auto
    then have lr: "length (fst r) = n" using len by simp
    have "\<forall>j<k. fst r ! j = 0" using c r by (simp add: cleared_def)
    then show ?thesis using el[OF lr] r that by (cases "j < k") (auto simp: less_Suc_eq)
  qed
  show ?thesis
    unfolding cleared_def using fin td lf by simp
qed

lemma gauss_jordan_invariant:
  assumes sq: "is_square n A"
  shows "gauss_jordan m k finished todo = Some rows \<Longrightarrow> k + m = n \<Longrightarrow> length todo = m \<Longrightarrow>
     \<forall>r \<in> set (finished @ todo). row_ok A n r \<Longrightarrow> cleared k finished todo \<Longrightarrow>
     (\<forall>r \<in> set rows. row_ok A n r) \<and> cleared n rows []"
proof (induction m arbitrary: k finished todo)
  case 0
  then show ?case by simp
next
  case (Suc m)
  from Suc.prems(1) obtain p rest where pv: "find_pivot k todo = Some (p, rest)"
    by (auto split: option.splits)
  let ?q = "normalise k p"
  let ?f = "map (eliminate k ?q) finished @ [?q]"
  let ?t = "map (eliminate k ?q) rest"
  have rec: "gauss_jordan m (Suc k) ?f ?t = Some rows"
    using Suc.prems(1) pv by (simp add: Let_def)
  have fp: "fst p ! k \<noteq> 0" "set todo = insert p (set rest)" "length todo = Suc (length rest)"
    using find_pivot_Some[OF pv] by auto
  have okp: "row_ok A n p" and okr: "\<forall>r \<in> set rest. row_ok A n r"
    and okf: "\<forall>r \<in> set finished. row_ok A n r"
    using Suc.prems(4) fp(2) by auto
  have okq: "row_ok A n ?q" by (rule row_ok_normalise[OF sq okp])
  have ok': "\<forall>r \<in> set (?f @ ?t). row_ok A n r"
    using okq okr okf row_ok_eliminate[OF sq okq] by auto
  have c0: "cleared k finished (p # rest)"
    using Suc.prems(5) fp(2) by (simp add: cleared_def)
  have len: "\<forall>r \<in> set (finished @ p # rest). length (fst r) = n"
    using okp okr okf by (auto simp: row_ok_def)
  have c': "cleared (Suc k) ?f ?t"
    by (rule cleared_step[OF len _ c0 fp(1)]) (use Suc.prems(2) in simp)
  show ?case
    by (rule Suc.IH[OF rec _ _ ok' c']) (use Suc.prems(2,3) fp(3) in simp_all)
qed

lemma cleared_unit_rows:
  assumes "cleared n rows []" "\<forall>r \<in> set rows. length (fst r) = n"
  shows "map fst rows = map (unit_row n) [0..<n]"
proof (rule nth_equalityI)
  show "length (map fst rows) = length (map (unit_row n) [0..<n])"
    using assms by (simp add: cleared_def)
next
  fix i assume "i < length (map fst rows)"
  then have i: "i < n" "i < length rows" using assms by (simp_all add: cleared_def)
  then have l: "length (fst (rows ! i)) = n" using assms by simp
  have "fst (rows ! i) = unit_row n i"
    by (rule nth_equalityI) (use l i assms in \<open>auto simp: unit_row_def cleared_def\<close>)
  then show "map fst rows ! i = map (unit_row n) [0..<n] ! i" using i by simp
qed

lemma zip_identity_row_ok:
  assumes "is_square n A"
  shows "\<forall>r \<in> set (zip A (identity n)). row_ok A n r"
proof
  fix r assume "r \<in> set (zip A (identity n))"
  then obtain i where i: "i < n" "r = (A ! i, unit_row n i)"
    using assms by (auto simp: in_set_zip is_square_def identity_unit_rows)
  then show "row_ok A n r"
    using assms vecmat_unit_row[OF assms i(1)]
    by (simp add: row_ok_def is_square_def unit_row_def)
qed

lemma row_span_closed:
  assumes "S \<subseteq> row_span T"
  shows "row_span S \<subseteq> row_span T"
proof
  fix r assume "r \<in> row_span S"
  then show "r \<in> row_span T"
  proof (induction rule: row_span.induct)
    case (base r)
    then show ?case using assms by auto
  next
    case (scaled r c)
    then show ?case by (simp add: row_span.scaled)
  next
    case (added r s)
    then show ?case by (simp add: row_span.added)
  qed
qed

lemma scale_scale_inverse: "c \<noteq> 0 \<Longrightarrow> scale c (scale (1 / c) v) = v"
  by (simp add: scale_def comp_def)

lemma add_sub_scaled:
  "length a = length b \<Longrightarrow> map2 (\<lambda>x y. x + y) (sub_scaled f a b) (scale f a) = b"
  by (rule nth_equalityI) (simp_all add: sub_scaled_def scale_def)

lemma pivot_in_span:
  assumes "fst p ! k \<noteq> 0" "normalise k p \<in> S"
  shows "p \<in> row_span S"
proof -
  let ?c = "fst p ! k"
  have "(scale ?c (fst (normalise k p)), scale ?c (snd (normalise k p))) \<in> row_span S"
    by (rule row_span.scaled) (rule row_span.base[OF assms(2)])
  then show ?thesis using assms(1) by (simp add: normalise_def scale_scale_inverse)
qed

lemma eliminated_in_span:
  assumes "q \<in> S" "eliminate k q r \<in> S"
    "length (fst q) = length (fst r)" "length (snd q) = length (snd r)"
  shows "r \<in> row_span S"
proof -
  let ?f = "fst r ! k"
  have "(scale ?f (fst q), scale ?f (snd q)) \<in> row_span S"
    by (rule row_span.scaled) (rule row_span.base[OF assms(1)])
  from row_span.added[OF row_span.base[OF assms(2)] this]
  show ?thesis using assms(3,4) by (simp add: eliminate_def add_sub_scaled)
qed

lemma gauss_jordan_span:
  "gauss_jordan m k finished todo = Some rows \<Longrightarrow> length todo = m \<Longrightarrow>
     row_lengths n (finished @ todo) \<Longrightarrow> set (finished @ todo) \<subseteq> row_span (set rows)"
proof (induction m arbitrary: k finished todo)
  case 0
  then show ?case by (auto intro: row_span.base)
next
  case (Suc m)
  from Suc.prems(1) obtain p rest where pv: "find_pivot k todo = Some (p, rest)"
    by (auto split: option.splits)
  let ?q = "normalise k p"
  let ?f = "map (eliminate k ?q) finished @ [?q]"
  let ?t = "map (eliminate k ?q) rest"
  have rec: "gauss_jordan m (Suc k) ?f ?t = Some rows"
    using Suc.prems(1) pv by (simp add: Let_def)
  have fp: "fst p ! k \<noteq> 0" "set todo = insert p (set rest)" "length todo = Suc (length rest)"
    using find_pivot_Some[OF pv] by auto
  have lp: "length (fst p) = n" "length (snd p) = n"
    using Suc.prems(3) fp(2) by (auto simp: row_lengths_def)
  have lq: "length (fst ?q) = n" "length (snd ?q) = n"
    using lp by (simp_all add: normalise_def length_scale)
  have lo: "length (fst r) = n \<and> length (snd r) = n" if "r \<in> set finished \<union> set rest" for r
    using Suc.prems(3) fp(2) that by (auto simp: row_lengths_def)
  have le: "length (fst (eliminate k ?q r)) = n \<and> length (snd (eliminate k ?q r)) = n"
    if "r \<in> set finished \<union> set rest" for r
    using lo[OF that] lq by (simp add: eliminate_def length_sub_scaled)
  have rl: "row_lengths n (?f @ ?t)"
    using le lq by (auto simp: row_lengths_def)
  have ih: "set (?f @ ?t) \<subseteq> row_span (set rows)"
    by (rule Suc.IH[OF rec _ rl]) (use Suc.prems(2) fp(3) in simp)
  have qin: "?q \<in> set (?f @ ?t)" by simp
  have "set (finished @ todo) \<subseteq> row_span (set (?f @ ?t))"
  proof
    fix r assume r: "r \<in> set (finished @ todo)"
    show "r \<in> row_span (set (?f @ ?t))"
    proof (cases "r = p")
      case True
      then show ?thesis using pivot_in_span[OF fp(1) qin] by simp
    next
      case False
      then have m: "r \<in> set finished \<union> set rest" using r fp(2) by auto
      then have "eliminate k ?q r \<in> set (?f @ ?t)" by auto
      then show ?thesis
        using eliminated_in_span[OF qin _ ] lo[OF m] lq by simp
    qed
  qed
  then show ?case using row_span_closed[OF ih] by blast
qed

lemma span_of_reduced:
  assumes sq: "is_square n (map snd rows)" and u: "map fst rows = map (unit_row n) [0..<n]"
    and r: "r \<in> row_span (set rows)"
  shows "length (fst r) = n \<and> length (snd r) = n \<and> snd r = vecmat (fst r) (map snd rows)"
  using r
proof (induction rule: row_span.induct)
  case (base r)
  then obtain i where i: "i < length rows" "r = rows ! i" by (auto simp: in_set_conv_nth)
  have n: "length rows = n" using sq by (simp add: is_square_def)
  have f: "fst r = unit_row n i" using i u n by (metis length_map nth_map nth_upt add_0 diff_zero length_upt)
  have s: "snd r = map snd rows ! i" using i by simp
  have "length (snd r) = n" using sq i s by (simp add: is_square_def)
  then show ?case using vecmat_unit_row[OF sq, of i] i n f s by (simp add: unit_row_def)
next
  case (scaled r c)
  have "length (map snd rows) = n" using sq by (simp add: is_square_def)
  then show ?case using scaled.IH vecmat_scale[of "fst r" "map snd rows" c]
    by (simp add: length_scale length_vecmat ncols_is_square[OF sq])
next
  case (added r s)
  have "length (map snd rows) = n" using sq by (simp add: is_square_def)
  then show ?case using added.IH vecmat_add[of "fst r" "map snd rows" "fst s"]
    by (simp add: length_vecmat ncols_is_square[OF sq])
qed

lemma inverse_matrix_left:
  assumes "inverse_matrix A = Inr N"
  shows "is_square (length A) A \<and> is_square (length A) N \<and> mm N A = Inr (identity (length A))"
proof -
  let ?n = "length A"
  have sq: "is_square ?n A"
    using assms by (auto simp: inverse_matrix_def square_is_square split: if_splits)
  obtain rows where g: "gauss_jordan ?n 0 [] (zip A (identity ?n)) = Some rows"
    and N: "N = map snd rows"
    using assms by (auto simp: inverse_matrix_def split: if_splits option.splits)
  have "(\<forall>r \<in> set rows. row_ok A ?n r) \<and> cleared ?n rows []"
  proof (rule gauss_jordan_invariant[OF sq g])
    show "length (zip A (identity ?n)) = ?n" by (simp add: identity_def)
    show "\<forall>r \<in> set ([] @ zip A (identity ?n)). row_ok A ?n r"
      using zip_identity_row_ok[OF sq] by simp
    show "cleared 0 [] (zip A (identity ?n))" by (simp add: cleared_def)
  qed simp
  then have ok: "\<forall>r \<in> set rows. row_ok A ?n r" and cl: "cleared ?n rows []" by auto
  have lf: "\<forall>r \<in> set rows. length (fst r) = ?n"
    using ok unfolding row_ok_def by blast
  have u: "map fst rows = identity ?n"
    using cleared_unit_rows[OF cl lf] by (simp add: identity_unit_rows)
  have sqN: "is_square ?n N"
    using ok cl by (auto simp: N is_square_def row_ok_def cleared_def)
  have "map (\<lambda>r. vecmat r A) N = map fst rows"
    using ok by (simp add: N row_ok_def)
  then have "mm N A = Inr (identity ?n)"
    using sqN u by (simp add: mm_def list_all_iff is_square_def)
  then show ?thesis using sq sqN by simp
qed

lemma inverse_matrix_right:
  assumes "inverse_matrix A = Inr N"
  shows "mm A N = Inr (identity (length A))"
proof -
  let ?n = "length A"
  have sq: "is_square ?n A"
    using assms by (auto simp: inverse_matrix_def square_is_square split: if_splits)
  obtain rows where g: "gauss_jordan ?n 0 [] (zip A (identity ?n)) = Some rows"
    and N: "N = map snd rows"
    using assms by (auto simp: inverse_matrix_def split: if_splits option.splits)
  have "(\<forall>r \<in> set rows. row_ok A ?n r) \<and> cleared ?n rows []"
  proof (rule gauss_jordan_invariant[OF sq g])
    show "length (zip A (identity ?n)) = ?n" by (simp add: identity_def)
    show "\<forall>r \<in> set ([] @ zip A (identity ?n)). row_ok A ?n r"
      using zip_identity_row_ok[OF sq] by simp
    show "cleared 0 [] (zip A (identity ?n))" by (simp add: cleared_def)
  qed simp
  then have ok: "\<forall>r \<in> set rows. row_ok A ?n r" and cl: "cleared ?n rows []" by auto
  have lf: "\<forall>r \<in> set rows. length (fst r) = ?n"
    using ok unfolding row_ok_def by blast
  have u: "map fst rows = map (unit_row ?n) [0..< ?n]"
    by (rule cleared_unit_rows[OF cl lf])
  have sqN: "is_square ?n (map snd rows)"
    using ok cl by (auto simp: is_square_def row_ok_def cleared_def)
  have rl: "row_lengths ?n ([] @ zip A (identity ?n))"
    using zip_identity_row_ok[OF sq] by (auto simp: row_lengths_def row_ok_def)
  have sp: "set ([] @ zip A (identity ?n)) \<subseteq> row_span (set rows)"
    by (rule gauss_jordan_span[OF g _ rl]) (simp add: identity_def)
  have "map (\<lambda>r. vecmat r N) A = map (unit_row ?n) [0..< ?n]"
  proof (rule nth_equalityI)
    show "length (map (\<lambda>r. vecmat r N) A) = length (map (unit_row ?n) [0..< ?n])" by simp
  next
    fix i assume "i < length (map (\<lambda>r. vecmat r N) A)"
    then have i: "i < ?n" by simp
    then have "(A ! i, unit_row ?n i) \<in> set (zip A (identity ?n))"
      by (auto simp: in_set_zip identity_unit_rows)
    then have "(A ! i, unit_row ?n i) \<in> row_span (set rows)" using sp by auto
    from span_of_reduced[OF sqN u this]
    show "map (\<lambda>r. vecmat r N) A ! i = map (unit_row ?n) [0..< ?n] ! i"
      using i by (simp add: N)
  qed
  then show ?thesis
    using sq sqN by (simp add: mm_def list_all_iff is_square_def identity_unit_rows N)
qed

lemma length_mat_t: "length (mat_t A) = ncols A"
  by (simp add: mat_t_def)

lemma is_square_mat_t: "is_square n A \<Longrightarrow> is_square n (mat_t A)"
  by (auto simp: is_square_def mat_t_def ncols_is_square[unfolded is_square_def])

lemma nth_mat_t:
  assumes "is_square n A" "i < n" "j < n"
  shows "mat_t A ! i ! j = A ! j ! i"
proof -
  have "ncols A = n" "length A = n"
    using assms(1) by (simp_all add: ncols_is_square is_square_def)
  then show ?thesis using assms(2,3) by (simp add: mat_t_def)
qed

lemma mat_t_mat_t:
  assumes "is_square n A"
  shows "mat_t (mat_t A) = A"
proof (rule nth_equalityI)
  show l: "length (mat_t (mat_t A)) = length A"
    using is_square_mat_t[OF assms] assms by (simp add: length_mat_t ncols_is_square is_square_def)
  fix i assume "i < length (mat_t (mat_t A))"
  then have i: "i < n" using l assms by (simp add: is_square_def)
  have s: "is_square n (mat_t (mat_t A))" using assms by (simp add: is_square_mat_t)
  show "mat_t (mat_t A) ! i = A ! i"
  proof (rule nth_equalityI)
    show "length (mat_t (mat_t A) ! i) = length (A ! i)"
      using s assms i by (simp add: is_square_def)
    fix j assume "j < length (mat_t (mat_t A) ! i)"
    then have j: "j < n" using s i by (simp add: is_square_def)
    show "mat_t (mat_t A) ! i ! j = A ! i ! j"
      using nth_mat_t[OF is_square_mat_t[OF assms] i j] nth_mat_t[OF assms j i] by simp
  qed
qed

lemma vecmat_mat_t:
  assumes "is_square n A" "length v = n"
  shows "vecmat v (mat_t A) = matvec A v"
proof (rule nth_equalityI)
  have s: "is_square n (mat_t A)" using assms by (simp add: is_square_mat_t)
  show l: "length (vecmat v (mat_t A)) = length (matvec A v)"
    using s assms by (simp add: length_vecmat ncols_is_square matvec_def is_square_def)
  fix j assume "j < length (vecmat v (mat_t A))"
  then have j: "j < n" using s by (simp add: length_vecmat ncols_is_square)
  have "(\<Sum>k<n. v ! k * mat_t A ! k ! j) = (\<Sum>k<n. A ! j ! k * v ! k)"
    by (rule sum.cong) (simp_all add: nth_mat_t[OF assms(1) _ j] mult.commute)
  moreover have "ncols (mat_t A) = n" "length (mat_t A) = n" "length A = n"
    using s assms(1) by (simp_all add: ncols_is_square is_square_def)
  ultimately show "vecmat v (mat_t A) ! j = matvec A v ! j"
    using j assms(2) by (simp add: nth_vecmat matvec_def)
qed

lemma mm_square:
  "is_square n A \<Longrightarrow> is_square n B \<Longrightarrow> mm A B = Inr (map (\<lambda>r. vecmat r B) A)"
  by (simp add: mm_def list_all_iff is_square_def)

lemma nth_identity: "i < n \<Longrightarrow> j < n \<Longrightarrow> identity n ! i ! j = (if i = j then 1 else 0)"
  by (simp add: identity_def)

lemma mm_transpose_identity:
  assumes A: "is_square n A" and B: "is_square n B" and I: "mm A B = Inr (identity n)"
  shows "mm (mat_t B) (mat_t A) = Inr (identity n)"
proof -
  have e: "map (\<lambda>r. vecmat r B) A = identity n" using I mm_square[OF A B] by simp
  have ent: "(\<Sum>k<n. A ! i ! k * B ! k ! j) = (if i = j then 1 else 0)" if "i < n" "j < n" for i j
  proof -
    have "map (\<lambda>r. vecmat r B) A ! i ! j = identity n ! i ! j" by (simp only: e)
    moreover have "ncols B = n" "length B = n" "length A = n"
      using A B by (simp_all add: ncols_is_square is_square_def)
    ultimately show ?thesis using that by (simp add: nth_vecmat nth_identity)
  qed
  have tA: "is_square n (mat_t A)" and tB: "is_square n (mat_t B)"
    using A B by (simp_all add: is_square_mat_t)
  have "map (\<lambda>r. vecmat r (mat_t A)) (mat_t B) = identity n"
  proof (rule nth_equalityI)
    show "length (map (\<lambda>r. vecmat r (mat_t A)) (mat_t B)) = length (identity n)"
      using tB by (simp add: is_square_def identity_def)
    fix i assume "i < length (map (\<lambda>r. vecmat r (mat_t A)) (mat_t B))"
    then have i: "i < n" using tB by (simp add: is_square_def)
    have nc: "ncols (mat_t A) = n" using tA by (rule ncols_is_square)
    have lB: "length (mat_t B) = n" using tB by (simp add: is_square_def)
    show "map (\<lambda>r. vecmat r (mat_t A)) (mat_t B) ! i = identity n ! i"
    proof (rule nth_equalityI)
      show "length (map (\<lambda>r. vecmat r (mat_t A)) (mat_t B) ! i) = length (identity n ! i)"
        using i nc lB by (simp add: length_vecmat identity_def)
      fix j assume "j < length (map (\<lambda>r. vecmat r (mat_t A)) (mat_t B) ! i)"
      then have j: "j < n" using i nc lB by (simp add: length_vecmat)
      have "(\<Sum>k<n. mat_t B ! i ! k * mat_t A ! k ! j) = (\<Sum>k<n. A ! j ! k * B ! k ! i)"
        by (rule sum.cong) (simp_all add: nth_mat_t[OF B i] nth_mat_t[OF A _ j] mult.commute)
      moreover have "ncols (mat_t A) = n" "length (mat_t A) = n" "length (mat_t B) = n"
        using tA tB by (simp_all add: ncols_is_square is_square_def)
      ultimately show "map (\<lambda>r. vecmat r (mat_t A)) (mat_t B) ! i ! j = identity n ! i ! j"
        using i j ent[OF j i] by (auto simp: nth_vecmat nth_identity)
    qed
  qed
  then show ?thesis using mm_square[OF tB tA] by simp
qed

subsection \<open>FixedLinearTransform is the affine map\<close>

lemma cholesky_square: "cholesky A = Inr L \<Longrightarrow> square A"
  by (auto simp: cholesky_def split: if_splits)

lemma FixedLinearTransform_init_Inr:
  assumes "FixedLinearTransform_init dims_in M b = Inr L"
  shows "is_square (length M) M \<and> lin_M L = mat_t M \<and> lin_b L = b
         \<and> inverse_matrix (mat_t M) = Inr (lin_M_inv L)"
proof -
  from assms obtain Mi C where i: "inverse_matrix (mat_t M) = Inr Mi" and c: "cholesky M = Inr C"
    and L: "L = \<lparr>lin_M = mat_t M, lin_M_inv = Mi, lin_b = b, lin_logDetM = sum_list (map ln (diag C))\<rparr>"
    by (auto simp: FixedLinearTransform_init_def split: sum.splits)
  have "is_square (length M) M" using cholesky_square[OF c] by (simp add: square_is_square)
  then show ?thesis using i L by simp
qed

lemma inverse_of_transpose:
  assumes M: "is_square n M" and K: "inverse_matrix (mat_t M) = Inr K"
  shows "is_square n K \<and> mm (mat_t K) M = Inr (identity n) \<and> mm M (mat_t K) = Inr (identity n)"
proof -
  have tM: "is_square n (mat_t M)" using M by (rule is_square_mat_t)
  then have l: "length (mat_t M) = n" by (simp add: is_square_def)
  have sK: "is_square n K" and left: "mm K (mat_t M) = Inr (identity n)"
    using inverse_matrix_left[OF K] l by simp_all
  have right: "mm (mat_t M) K = Inr (identity n)"
    using inverse_matrix_right[OF K] l by simp
  have "mm (mat_t K) (mat_t (mat_t M)) = Inr (identity n)"
    by (rule mm_transpose_identity[OF tM sK right])
  moreover have "mm (mat_t (mat_t M)) (mat_t K) = Inr (identity n)"
    by (rule mm_transpose_identity[OF sK tM left])
  ultimately show ?thesis using sK by (simp add: mat_t_mat_t[OF M])
qed

lemma broadcast_same_length:
  assumes "\<forall>r \<in> set Y. length r = length b"
  shows "broadcast f Y b = Inr (map (\<lambda>r. map2 f r b) Y)"
  unfolding broadcast_def
  by (rule sequence_err_map) (use assms in \<open>simp add: broadcast_row_def\<close>)

lemma inverse_minus_one: "inverse_matrix [[- 1]] = Inr [[- 1]]"
  by (simp add: inverse_matrix_def square_def identity_def normalise_def eliminate_def
      scale_def sub_scaled_def)

text \<open>
  Claim C4, at \<open>M = [[-1]]\<close>, which is invertible, its own inverse: its only entry is not
  positive, so the Cholesky factorisation that the constructor asks for (to compute
  \<^verbatim>\<open>logDetM\<close>) fails and the constructor raises; there is no instance whose \<^verbatim>\<open>forward\<close>
  could return \<open>M x\<^sub>i + b\<close>.
\<close>

theorem FixedLinearTransform_init_rejects_invertible:
  "inverse_matrix [[- 1]] = Inr [[- 1]]
   \<and> mm [[- 1]] [[- 1]] = Inr (identity 1)
   \<and> cholesky [[- 1]] = Inl RuntimeError
   \<and> FixedLinearTransform_init [[1]] [[- 1]] [0] = Inl RuntimeError"
proof -
  have t: "mat_t [[- 1]] = [[- 1]]" by (simp add: mat_t_def ncols_def)
  have m: "mm [[- 1]] [[- 1]] = Inr (identity 1)"
    by (simp add: mm_def vecmat_def ncols_def identity_def)
  have c: "cholesky [[- 1]] = Inl RuntimeError"
    by (simp add: cholesky_def cholesky_row_def square_def Let_def)
  show ?thesis
    by (simp add: inverse_minus_one m c FixedLinearTransform_init_def t)
qed

text \<open>
  On the matrices that the constructor accepts, the layer is the affine map. Let the
  constructor accept \<open>M\<close> and \<open>b\<close>, with \<open>b\<close> and every row of the batch as long as \<open>M\<close>.
  Then \<open>M\<close> is invertible, the transpose of the stored \<^verbatim>\<open>M_inv\<close> being its inverse
  \<open>M\<^sup>-\<^sup>1\<close> on both sides; \<^verbatim>\<open>forward(x, rev=False)\<close> returns the rows \<open>M x\<^sub>i + b\<close>; and
  \<^verbatim>\<open>forward(y, rev=True)\<close> returns the rows \<open>M\<^sup>-\<^sup>1 (y\<^sub>i - b)\<close>.
\<close>

theorem FixedLinearTransform_affine:
  assumes init: "FixedLinearTransform_init dims_in M b = Inr L"
    and x: "\<forall>r \<in> set x0. length r = length M" and b: "length b = length M"
  shows "mm (mat_t (lin_M_inv L)) M = Inr (identity (length M))
       \<and> mm M (mat_t (lin_M_inv L)) = Inr (identity (length M))
       \<and> fst (FixedLinearTransform_forward L (x0 # xs) False)
           = Inr [map (\<lambda>x_i. map2 (\<lambda>u v. u + v) (matvec M x_i) b) x0]
       \<and> fst (FixedLinearTransform_forward L (x0 # xs) True)
           = Inr [map (\<lambda>y_i. matvec (mat_t (lin_M_inv L)) (map2 (\<lambda>u v. u - v) y_i b)) x0]"
proof -
  let ?n = "length M"
  let ?K = "lin_M_inv L"
  have M: "is_square ?n M" and LM: "lin_M L = mat_t M" and Lb: "lin_b L = b"
    and K: "inverse_matrix (mat_t M) = Inr ?K"
    using FixedLinearTransform_init_Inr[OF init] by auto
  have sK: "is_square ?n ?K" and inv1: "mm (mat_t ?K) M = Inr (identity ?n)"
    and inv2: "mm M (mat_t ?K) = Inr (identity ?n)"
    using inverse_of_transpose[OF M K] by auto
  have tM: "is_square ?n (mat_t M)" using M by (rule is_square_mat_t)
  have tK: "is_square ?n (mat_t ?K)" using sK by (rule is_square_mat_t)
  have lt: "length (mat_t M) = ?n" "ncols (mat_t M) = ?n"
    using tM by (simp_all add: ncols_is_square is_square_def)
  have lk: "length ?K = ?n" "ncols ?K = ?n"
    using sK by (simp_all add: ncols_is_square is_square_def)
  \<comment> \<open>forward\<close>
  have m1: "mm x0 (mat_t M) = Inr (map (\<lambda>r. vecmat r (mat_t M)) x0)"
    using x lt by (simp add: mm_def list_all_iff)
  have b1: "broadcast (\<lambda>u v. u + v) (map (\<lambda>r. vecmat r (mat_t M)) x0) b
      = Inr (map (\<lambda>r. map2 (\<lambda>u v. u + v) r b) (map (\<lambda>r. vecmat r (mat_t M)) x0))"
    by (rule broadcast_same_length) (simp add: length_vecmat lt b)
  have f1: "map (\<lambda>r. map2 (\<lambda>u v. u + v) r b) (map (\<lambda>r. vecmat r (mat_t M)) x0)
      = map (\<lambda>x_i. map2 (\<lambda>u v. u + v) (matvec M x_i) b) x0"
    using x by (simp add: vecmat_mat_t[OF M])
  have fwd: "fst (FixedLinearTransform_forward L (x0 # xs) False)
           = Inr [map (\<lambda>x_i. map2 (\<lambda>u v. u + v) (matvec M x_i) b) x0]"
    by (simp add: FixedLinearTransform_forward_def LM Lb m1 b1 f1 del: map_map)
  \<comment> \<open>reverse\<close>
  have b2: "broadcast (\<lambda>u v. u - v) x0 b = Inr (map (\<lambda>r. map2 (\<lambda>u v. u - v) r b) x0)"
    by (rule broadcast_same_length) (simp add: x b)
  have m2: "mm (map (\<lambda>r. map2 (\<lambda>u v. u - v) r b) x0) ?K
      = Inr (map (\<lambda>r. vecmat r ?K) (map (\<lambda>r. map2 (\<lambda>u v. u - v) r b) x0))"
    using x b lk by (simp add: mm_def list_all_iff)
  have v: "vecmat d ?K = matvec (mat_t ?K) d" if "length d = ?n" for d
    using vecmat_mat_t[OF tK that] by (simp add: mat_t_mat_t[OF sK])
  have f2: "map (\<lambda>r. vecmat r ?K) (map (\<lambda>r. map2 (\<lambda>u v. u - v) r b) x0)
      = map (\<lambda>y_i. matvec (mat_t ?K) (map2 (\<lambda>u v. u - v) y_i b)) x0"
    using x b by (simp add: v)
  have bwd: "fst (FixedLinearTransform_forward L (x0 # xs) True)
           = Inr [map (\<lambda>y_i. matvec (mat_t ?K) (map2 (\<lambda>u v. u - v) y_i b)) x0]"
    by (simp add: FixedLinearTransform_forward_def Lb b2 m2 f2 del: map_map)
  show ?thesis using inv1 inv2 fwd bwd by simp
qed

theorem FixedLinearTransform_affine_witness:
  "FixedLinearTransform_init [[2]] [[4, 2], [2, 5]] [1, - 1]
     = Inr \<lparr>lin_M = [[4, 2], [2, 5]], lin_M_inv = [[5 / 16, - 1 / 8], [- 1 / 8, 1 / 4]],
            lin_b = [1, - 1], lin_logDetM = ln 4\<rparr>
   \<and> fst (FixedLinearTransform_forward
            \<lparr>lin_M = [[4, 2], [2, 5]], lin_M_inv = [[5 / 16, - 1 / 8], [- 1 / 8, 1 / 4]],
             lin_b = [1, - 1], lin_logDetM = ln 4\<rparr> [[[1, 0], [3, 2]]] False)
       = Inr [[[5, 1], [17, 15]]]
   \<and> fst (FixedLinearTransform_forward
            \<lparr>lin_M = [[4, 2], [2, 5]], lin_M_inv = [[5 / 16, - 1 / 8], [- 1 / 8, 1 / 4]],
             lin_b = [1, - 1], lin_logDetM = ln 4\<rparr> [[[5, 1], [17, 15]]] True)
       = Inr [[[1, 0], [3, 2]]]"
proof -
  let ?L = "\<lparr>lin_M = [[4, 2], [2, 5]], lin_M_inv = [[5 / 16, - 1 / 8], [- 1 / 8, 1 / 4]],
             lin_b = [1, - 1 :: real], lin_logDetM = ln 4\<rparr>"
  have "ln 2 + ln 2 = ln (2 * 2 :: real)" by (subst ln_mult) simp_all
  then have l: "ln 2 + ln 2 = ln (4 :: real)" by simp
  have d: "diag [[2, 0], [1, 2]] = [2, 2]"
    by (simp add: diag_def ncols_def upt_rec)
  have i: "FixedLinearTransform_init [[2]] [[4, 2], [2, 5]] [1, - 1] = Inr ?L"
    by (simp add: FixedLinearTransform_init_def mat_t_example inverse_example cholesky_example d l)
  have t: "mat_t (lin_M_inv ?L) = [[5 / 16, - 1 / 8], [- 1 / 8, 1 / 4]]"
    by (simp add: mat_t_def ncols_def upt_rec)
  have a: "fst (FixedLinearTransform_forward ?L [[[1, 0], [3, 2]]] False) = Inr [[[5, 1], [17, 15]]]"
  proof -
    have "fst (FixedLinearTransform_forward ?L [[[1, 0], [3, 2]]] False)
      = Inr [map (\<lambda>x_i. map2 (\<lambda>u v. u + v) (matvec [[4, 2], [2, 5]] x_i) [1, - 1]) [[1, 0], [3, 2]]]"
      using FixedLinearTransform_affine[OF i, of "[[1, 0], [3, 2]]" "[]"] by simp
    also have "map (\<lambda>x_i. map2 (\<lambda>u v. u + v) (matvec [[4, 2], [2, 5]] x_i) [1, - 1]) [[1, 0], [3, 2]]
      = [[5, 1], [17, 15 :: real]]"
      by (simp add: matvec_def)
    finally show ?thesis .
  qed
  have b: "fst (FixedLinearTransform_forward ?L [[[5, 1], [17, 15]]] True) = Inr [[[1, 0], [3, 2]]]"
  proof -
    have "fst (FixedLinearTransform_forward ?L [[[5, 1], [17, 15]]] True)
      = Inr [map (\<lambda>y_i. matvec (mat_t (lin_M_inv ?L)) (map2 (\<lambda>u v. u - v) y_i [1, - 1])) [[5, 1], [17, 15]]]"
      using FixedLinearTransform_affine[OF i, of "[[5, 1], [17, 15]]" "[]"] by simp
    also have "map (\<lambda>y_i. matvec (mat_t (lin_M_inv ?L)) (map2 (\<lambda>u v. u - v) y_i [1, - 1])) [[5, 1], [17, 15]]
      = [[1, 0], [3, 2 :: real]]"
      unfolding t by (simp add: matvec_def)
    finally show ?thesis .
  qed
  show ?thesis
    using i a b by simp
qed

subsection \<open>Forward, then reverse, on the other layers\<close>

text \<open>
  In exact arithmetic the reverse direction of \<^verbatim>\<open>PermuteRandom\<close>,
  \<^verbatim>\<open>FixedLinearTransform\<close> and \<^verbatim>\<open>Fixed1x1Conv\<close> undoes the forward direction on every
  batch of the layer's shape. The one of \<^verbatim>\<open>LogitTransform\<close> returns the scaled input
  (on inputs whose scaled value the clamp of \<open>safe_log\<close> leaves alone), which is the input
  only when the scaling is 1.
\<close>

lemma PermuteRandom_round_trip:
  assumes np: "numpy_permutation permutation"
    and init: "PermuteRandom_init permutation dims_in seed = Inr L"
    and x: "\<forall>r \<in> set x0. length r = in_channels L"
  shows "\<exists>y. fst (PermuteRandom_forward L (x0 # xs) False) = Inr [y]
           \<and> fst (PermuteRandom_forward L [y] True) = Inr [x0]"
proof -
  let ?n = "in_channels L"
  let ?y = "map (\<lambda>r. map (\<lambda>q. r ! q) (perm L)) x0"
  have L: "is_permutation (perm L)" "is_permutation (perm_inv L)"
      "length (perm L) = ?n" "length (perm_inv L) = ?n"
      "\<forall>k < ?n. perm L ! (perm_inv L ! k) = k"
    using PermuteRandom_init_Inr[OF np init] by auto
  have bp: "\<forall>q \<in> set (perm L). q < ?n" and bi: "\<forall>q \<in> set (perm_inv L). q < ?n"
    using L by (auto simp: is_permutation_def)
  have f: "index_columns x0 (perm L) = Inr ?y"
    unfolding index_columns_def
    by (rule sequence_err_map) (use x bp in \<open>simp add: index_row_def list_all_iff\<close>)
  have g: "index_columns ?y (perm_inv L) = Inr (map (\<lambda>r. map (\<lambda>q. r ! q) (perm_inv L)) ?y)"
    unfolding index_columns_def
    by (rule sequence_err_map) (use L(3) bi in \<open>simp add: index_row_def list_all_iff\<close>)
  have "map (\<lambda>q. map (\<lambda>q. r ! q) (perm L) ! q) (perm_inv L) = r" if "r \<in> set x0" for r
  proof (rule nth_equalityI)
    show "length (map (\<lambda>q. map (\<lambda>q. r ! q) (perm L) ! q) (perm_inv L)) = length r"
      using x that L(4) by simp
    fix j assume "j < length (map (\<lambda>q. map (\<lambda>q. r ! q) (perm L) ! q) (perm_inv L))"
    then have j: "j < ?n" using L(4) by simp
    then have "perm_inv L ! j < ?n" using bi L(4) by (metis nth_mem)
    then show "map (\<lambda>q. map (\<lambda>q. r ! q) (perm L) ! q) (perm_inv L) ! j = r ! j"
      using j L(3,4,5) by simp
  qed
  then have "map (\<lambda>r. map (\<lambda>q. r ! q) (perm_inv L)) ?y = x0"
    by (simp add: comp_def map_idI)
  then show ?thesis using f g by (simp add: PermuteRandom_forward_def)
qed

lemma vecmat_identity:
  assumes "length v = n"
  shows "vecmat v (identity n) = v"
proof (rule nth_equalityI)
  have nc: "ncols (identity n) = n" by (rule ncols_is_square[OF is_square_identity])
  show "length (vecmat v (identity n)) = length v" using assms nc by (simp add: length_vecmat)
  fix j assume "j < length (vecmat v (identity n))"
  then have j: "j < n" using nc by (simp add: length_vecmat)
  have "(\<Sum>k<n. v ! k * identity n ! k ! j) = (\<Sum>k<n. if k = j then v ! j else 0)"
    by (rule sum.cong) (auto simp: nth_identity j)
  then show "vecmat v (identity n) ! j = v ! j"
    using j nc by (simp add: nth_vecmat identity_def)
qed

lemma vecmat_assoc:
  assumes A: "is_square n A" and B: "is_square n B"
  shows "vecmat (vecmat v A) B = vecmat v (map (\<lambda>r. vecmat r B) A)"
proof (rule nth_equalityI)
  have ncA: "ncols A = n" and lA: "length A = n" using A by (simp_all add: ncols_is_square is_square_def)
  have ncB: "ncols B = n" and lB: "length B = n" using B by (simp_all add: ncols_is_square is_square_def)
  have ncP: "ncols (map (\<lambda>r. vecmat r B) A) = n"
    using lA ncB by (cases A) (simp_all add: ncols_def length_vecmat)
  show "length (vecmat (vecmat v A) B) = length (vecmat v (map (\<lambda>r. vecmat r B) A))"
    by (simp add: length_vecmat ncB ncP)
  fix j assume "j < length (vecmat (vecmat v A) B)"
  then have j: "j < n" by (simp add: length_vecmat ncB)
  have "(\<Sum>k<n. vecmat v A ! k * B ! k ! j) = (\<Sum>k<n. \<Sum>i<n. v ! i * A ! i ! k * B ! k ! j)"
    by (rule sum.cong) (simp_all add: nth_vecmat ncA lA sum_distrib_right)
  also have "\<dots> = (\<Sum>i<n. \<Sum>k<n. v ! i * A ! i ! k * B ! k ! j)"
    by (rule sum.swap)
  also have "\<dots> = (\<Sum>i<n. v ! i * map (\<lambda>r. vecmat r B) A ! i ! j)"
    by (rule sum.cong) (simp_all add: lA nth_vecmat ncB lB j sum_distrib_left mult.assoc)
  finally show "vecmat (vecmat v A) B ! j = vecmat v (map (\<lambda>r. vecmat r B) A) ! j"
    using j by (simp add: nth_vecmat ncB lB ncP lA)
qed

lemma vecmat_inverse:
  assumes A: "is_square n A" and B: "is_square n B" and I: "mm A B = Inr (identity n)"
    and v: "length v = n"
  shows "vecmat (vecmat v A) B = v"
proof -
  have "map (\<lambda>r. vecmat r B) A = identity n" using I mm_square[OF A B] by simp
  then show ?thesis using vecmat_assoc[OF A B, of v] vecmat_identity[OF v] by simp
qed

lemma add_then_subtract:
  "length u = length b \<Longrightarrow> map2 (\<lambda>x y. x - y) (map2 (\<lambda>x y. x + y) u b) b = (u :: real list)"
  by (rule nth_equalityI) simp_all

lemma FixedLinearTransform_forward_rows:
  assumes init: "FixedLinearTransform_init dims_in M b = Inr L"
    and x: "\<forall>r \<in> set x0. length r = length M" and b: "length b = length M"
  shows "fst (FixedLinearTransform_forward L (x0 # xs) False)
           = Inr [map (\<lambda>r. map2 (\<lambda>u v. u + v) (vecmat r (mat_t M)) b) x0]"
proof -
  have M: "is_square (length M) M" and LM: "lin_M L = mat_t M" and Lb: "lin_b L = b"
    using FixedLinearTransform_init_Inr[OF init] by auto
  have lt: "length (mat_t M) = length M" "ncols (mat_t M) = length M"
    using is_square_mat_t[OF M] by (simp_all add: ncols_is_square is_square_def)
  have m1: "mm x0 (mat_t M) = Inr (map (\<lambda>r. vecmat r (mat_t M)) x0)"
    using x lt by (simp add: mm_def list_all_iff)
  have b1: "broadcast (\<lambda>u v. u + v) (map (\<lambda>r. vecmat r (mat_t M)) x0) b
      = Inr (map (\<lambda>r. map2 (\<lambda>u v. u + v) r b) (map (\<lambda>r. vecmat r (mat_t M)) x0))"
    by (rule broadcast_same_length) (simp add: length_vecmat lt b)
  show ?thesis
    by (simp add: FixedLinearTransform_forward_def LM Lb m1 b1 comp_def)
qed

lemma FixedLinearTransform_reverse_rows:
  assumes init: "FixedLinearTransform_init dims_in M b = Inr L"
    and x: "\<forall>r \<in> set x0. length r = length M" and b: "length b = length M"
  shows "fst (FixedLinearTransform_forward L (x0 # xs) True)
           = Inr [map (\<lambda>r. vecmat (map2 (\<lambda>u v. u - v) r b) (lin_M_inv L)) x0]"
proof -
  have M: "is_square (length M) M" and Lb: "lin_b L = b"
    and K: "inverse_matrix (mat_t M) = Inr (lin_M_inv L)"
    using FixedLinearTransform_init_Inr[OF init] by auto
  have lk: "length (lin_M_inv L) = length M"
    using inverse_of_transpose[OF M K] by (simp add: is_square_def)
  have b2: "broadcast (\<lambda>u v. u - v) x0 b = Inr (map (\<lambda>r. map2 (\<lambda>u v. u - v) r b) x0)"
    by (rule broadcast_same_length) (simp add: x b)
  have m2: "mm (map (\<lambda>r. map2 (\<lambda>u v. u - v) r b) x0) (lin_M_inv L)
      = Inr (map (\<lambda>r. vecmat r (lin_M_inv L)) (map (\<lambda>r. map2 (\<lambda>u v. u - v) r b) x0))"
    using x b lk by (simp add: mm_def list_all_iff)
  show ?thesis
    by (simp add: FixedLinearTransform_forward_def Lb b2 m2 comp_def)
qed

lemma FixedLinearTransform_round_trip:
  assumes init: "FixedLinearTransform_init dims_in M b = Inr L"
    and x: "\<forall>r \<in> set x0. length r = length M" and b: "length b = length M"
  shows "\<exists>y. fst (FixedLinearTransform_forward L (x0 # xs) False) = Inr [y]
           \<and> fst (FixedLinearTransform_forward L [y] True) = Inr [x0]"
proof -
  let ?n = "length M"
  let ?y = "map (\<lambda>r. map2 (\<lambda>u v. u + v) (vecmat r (mat_t M)) b) x0"
  have M: "is_square ?n M" and K: "inverse_matrix (mat_t M) = Inr (lin_M_inv L)"
    using FixedLinearTransform_init_Inr[OF init] by auto
  have tM: "is_square ?n (mat_t M)" using M by (rule is_square_mat_t)
  then have lt: "length (mat_t M) = ?n" "ncols (mat_t M) = ?n"
    by (simp_all add: ncols_is_square is_square_def)
  have sK: "is_square ?n (lin_M_inv L)" using inverse_matrix_left[OF K] lt by simp
  have right: "mm (mat_t M) (lin_M_inv L) = Inr (identity ?n)"
    using inverse_matrix_right[OF K] lt by simp
  have ly: "\<forall>r \<in> set ?y. length r = ?n" by (simp add: length_vecmat lt b)
  have "fst (FixedLinearTransform_forward L [?y] True)
      = Inr [map (\<lambda>r. vecmat (map2 (\<lambda>u v. u - v) r b) (lin_M_inv L)) ?y]"
    by (rule FixedLinearTransform_reverse_rows[OF init ly b])
  also have "map (\<lambda>r. vecmat (map2 (\<lambda>u v. u - v) r b) (lin_M_inv L)) ?y = x0"
  proof -
    have "vecmat (map2 (\<lambda>u v. u - v) (map2 (\<lambda>u v. u + v) (vecmat r (mat_t M)) b) b) (lin_M_inv L) = r"
      if "r \<in> set x0" for r
    proof -
      have "length (vecmat r (mat_t M)) = length b" by (simp add: length_vecmat lt b)
      then show ?thesis
        using vecmat_inverse[OF tM sK right, of r] x that by (simp add: add_then_subtract)
    qed
    then show ?thesis by (simp add: comp_def map_idI)
  qed
  finally show ?thesis
    using FixedLinearTransform_forward_rows[OF init x b] by blast
qed

lemma conv2d_image_mix:
  "length img = ncols W \<Longrightarrow> W \<noteq> [] \<Longrightarrow> conv2d_image img W = Inr (mix_channels W img)"
  by (simp add: conv2d_image_def mix_channels_def)

lemma mix_channels_shape:
  assumes "W \<noteq> []"
  shows "length (mix_channels W img ! 0) = length (img ! 0)"
    and "ncols (mix_channels W img ! 0) = ncols (img ! 0)"
proof -
  obtain w ws where W: "W = w # ws" using assms by (cases W) auto
  show "length (mix_channels W img ! 0) = length (img ! 0)"
    by (simp add: mix_channels_def W)
  show "ncols (mix_channels W img ! 0) = ncols (img ! 0)"
  proof (cases "img ! 0")
    case Nil
    then show ?thesis by (simp add: mix_channels_def W ncols_def)
  next
    case (Cons r rs)
    then show ?thesis by (simp add: mix_channels_def W ncols_def upt_conv_Cons del: upt_Suc)
  qed
qed

lemma length_mix_channels: "length (mix_channels W img) = length W"
  by (simp add: mix_channels_def)

lemma length_mix_channels_channel:
  "p < length W \<Longrightarrow> length (mix_channels W img ! p) = length (img ! 0)"
  by (simp add: mix_channels_def)

lemma length_mix_channels_row:
  "p < length W \<Longrightarrow> h < length (img ! 0) \<Longrightarrow>
     length (mix_channels W img ! p ! h) = ncols (img ! 0)"
  by (simp add: mix_channels_def)

lemma nth_mix_channels:
  "p < length W \<Longrightarrow> h < length (img ! 0) \<Longrightarrow> c < ncols (img ! 0) \<Longrightarrow>
     mix_channels W img ! p ! h ! c = (\<Sum>i<length img. W ! p ! i * img ! i ! h ! c)"
  by (simp add: mix_channels_def)

lemma mix_channels_inverse:
  assumes A: "is_square n A" and B: "is_square n B" and I: "mm B A = Inr (identity n)"
    and n: "0 < n" and len: "length img = n"
    and ch: "\<forall>ch \<in> set img. length ch = length (img ! 0)
               \<and> (\<forall>row \<in> set ch. length row = ncols (img ! 0))"
  shows "mix_channels B (mix_channels A img) = img"
proof -
  let ?H = "length (img ! 0)"
  let ?W = "ncols (img ! 0)"
  let ?out = "mix_channels A img"
  have lA: "length A = n" and lB: "length B = n" and ncA: "ncols A = n"
    using A B by (simp_all add: is_square_def ncols_is_square)
  have A0: "A \<noteq> []" using lA n by auto
  have lo: "length ?out = n" by (simp add: length_mix_channels lA)
  have sh: "length (?out ! 0) = ?H" "ncols (?out ! 0) = ?W"
    using mix_channels_shape[OF A0] by auto
  have e: "map (\<lambda>r. vecmat r A) B = identity n" using I mm_square[OF B A] by simp
  have ent: "(\<Sum>i<n. B ! p ! i * A ! i ! j) = (if p = j then 1 else 0)" if "p < n" "j < n" for p j
  proof -
    have "map (\<lambda>r. vecmat r A) B ! p ! j = identity n ! p ! j" by (simp only: e)
    then show ?thesis using that by (simp add: nth_vecmat nth_identity lB lA ncA)
  qed
  have px: "(\<Sum>i<n. B ! p ! i * ?out ! i ! h ! c) = img ! p ! h ! c"
    if p: "p < n" and h: "h < ?H" and c: "c < ?W" for p h c
  proof -
    have "(\<Sum>i<n. B ! p ! i * ?out ! i ! h ! c)
        = (\<Sum>i<n. \<Sum>j<n. B ! p ! i * A ! i ! j * img ! j ! h ! c)"
    proof (rule sum.cong)
      fix i assume "i \<in> {..<n}"
      then have "?out ! i ! h ! c = (\<Sum>j<n. A ! i ! j * img ! j ! h ! c)"
        using nth_mix_channels[of i A h img c] h c lA len by simp
      then show "B ! p ! i * ?out ! i ! h ! c = (\<Sum>j<n. B ! p ! i * A ! i ! j * img ! j ! h ! c)"
        by (simp only: sum_distrib_left mult.assoc)
    qed simp
    also have "\<dots> = (\<Sum>j<n. \<Sum>i<n. B ! p ! i * A ! i ! j * img ! j ! h ! c)"
      by (rule sum.swap)
    also have "\<dots> = (\<Sum>j<n. if p = j then img ! p ! h ! c else 0)"
    proof (rule sum.cong)
      fix j assume "j \<in> {..<n}"
      then have j: "j < n" by simp
      have "(\<Sum>i<n. B ! p ! i * A ! i ! j * img ! j ! h ! c)
          = (\<Sum>i<n. B ! p ! i * A ! i ! j) * img ! j ! h ! c"
        by (simp only: sum_distrib_right)
      then show "(\<Sum>i<n. B ! p ! i * A ! i ! j * img ! j ! h ! c)
          = (if p = j then img ! p ! h ! c else 0)"
        using ent[OF p j] by simp
    qed simp
    also have "\<dots> = img ! p ! h ! c"
      using p by simp
    finally show ?thesis .
  qed
  show ?thesis
  proof (rule nth_equalityI)
    show "length (mix_channels B ?out) = length img" by (simp add: length_mix_channels lB len)
    fix p assume "p < length (mix_channels B ?out)"
    then have p: "p < n" by (simp add: length_mix_channels lB)
    then have pm: "img ! p \<in> set img" using len by simp
    have l1: "length (mix_channels B ?out ! p) = ?H"
      using length_mix_channels_channel[of p B ?out] p lB sh by simp
    show "mix_channels B ?out ! p = img ! p"
    proof (rule nth_equalityI)
      show "length (mix_channels B ?out ! p) = length (img ! p)"
        using l1 pm ch by simp
      fix h assume "h < length (mix_channels B ?out ! p)"
      then have h: "h < ?H" using l1 by simp
      then have hm: "img ! p ! h \<in> set (img ! p)" using pm ch by simp
      have l2: "length (mix_channels B ?out ! p ! h) = ?W"
        using length_mix_channels_row[of p B h ?out] p h lB sh by simp
      show "mix_channels B ?out ! p ! h = img ! p ! h"
      proof (rule nth_equalityI)
        show "length (mix_channels B ?out ! p ! h) = length (img ! p ! h)"
          using l2 pm hm ch by simp
        fix c assume "c < length (mix_channels B ?out ! p ! h)"
        then have c: "c < ?W" using l2 by simp
        have "mix_channels B ?out ! p ! h ! c = (\<Sum>i<n. B ! p ! i * ?out ! i ! h ! c)"
          using nth_mix_channels[of p B h ?out c] p h c lB sh lo by simp
        then show "mix_channels B ?out ! p ! h ! c = img ! p ! h ! c"
          using px[OF p h c] by simp
      qed
    qed
  qed
qed

lemma det_square: "det A = Inr d \<Longrightarrow> square A"
  by (auto simp: det_def split: if_splits)

lemma Fixed1x1Conv_init_Inr:
  assumes "Fixed1x1Conv_init dims_in M = Inr L"
  shows "is_square (length M) M \<and> conv_M L = mat_t M
         \<and> inverse_matrix (mat_t M) = Inr (conv_M_inv L)"
proof -
  from assms obtain Mi d where i: "inverse_matrix (mat_t M) = Inr Mi" and d: "det M = Inr d"
    and L: "L = \<lparr>conv_M = mat_t M, conv_M_inv = Mi, conv_logDetM = ln \<bar>d\<bar>\<rparr>"
    by (auto simp: Fixed1x1Conv_init_def split: sum.splits)
  have "is_square (length M) M" using det_square[OF d] by (simp add: square_is_square)
  then show ?thesis using i L by simp
qed

lemma conv2d_mix:
  assumes "\<forall>img \<in> set x0. length img = ncols W" "W \<noteq> []"
  shows "conv2d x0 W = Inr (map (mix_channels W) x0)"
  unfolding conv2d_def
  by (rule sequence_err_map) (use assms conv2d_image_mix in auto)

lemma Fixed1x1Conv_round_trip:
  assumes init: "Fixed1x1Conv_init dims_in M = Inr L"
    and M0: "M \<noteq> []" and x: "image_batch (length M) x0"
  shows "\<exists>y. fst (Fixed1x1Conv_forward L (x0 # xs) False) = Inr [y]
           \<and> fst (Fixed1x1Conv_forward L [y] True) = Inr [x0]"
proof -
  let ?n = "length M"
  let ?y = "map (mix_channels (mat_t M)) x0"
  have M: "is_square ?n M" and LM: "conv_M L = mat_t M"
    and K: "inverse_matrix (mat_t M) = Inr (conv_M_inv L)"
    using Fixed1x1Conv_init_Inr[OF init] by auto
  have n: "0 < ?n" using M0 by simp
  have tM: "is_square ?n (mat_t M)" using M by (rule is_square_mat_t)
  then have lt: "length (mat_t M) = ?n" "ncols (mat_t M) = ?n"
    by (simp_all add: ncols_is_square is_square_def)
  have sK: "is_square ?n (conv_M_inv L)" and left: "mm (conv_M_inv L) (mat_t M) = Inr (identity ?n)"
    using inverse_matrix_left[OF K] lt by simp_all
  have lk: "length (conv_M_inv L) = ?n" "ncols (conv_M_inv L) = ?n"
    using sK by (simp_all add: ncols_is_square is_square_def)
  have t0: "mat_t M \<noteq> []" and k0: "conv_M_inv L \<noteq> []" using lt lk n by auto
  have f: "conv2d x0 (mat_t M) = Inr ?y"
    by (rule conv2d_mix) (use x lt t0 in \<open>auto simp: image_batch_def\<close>)
  have g: "conv2d ?y (conv_M_inv L) = Inr (map (mix_channels (conv_M_inv L)) ?y)"
    by (rule conv2d_mix) (use lk lt k0 in \<open>auto simp: length_mix_channels\<close>)
  have "mix_channels (conv_M_inv L) (mix_channels (mat_t M) img) = img" if "img \<in> set x0" for img
    by (rule mix_channels_inverse[OF tM sK left n]) (use x that in \<open>auto simp: image_batch_def\<close>)
  then have "map (mix_channels (conv_M_inv L)) ?y = x0"
    by (simp add: comp_def map_idI)
  then show ?thesis using f g by (simp add: Fixed1x1Conv_forward_def LM)
qed

lemma LogitTransform_round_trip_returns_scaled:
  assumes "\<forall>r \<in> set x0. \<forall>v \<in> set r.
      1 / 10 ^ 22 \<le> ((2 * v - 1) * scaling self + 1) / 2
      \<and> ((2 * v - 1) * scaling self + 1) / 2 \<le> 1 - 1 / 10 ^ 22"
  shows "\<exists>y. fst (LogitTransform_forward self (x0 # xs) False) = Inr [y]
           \<and> fst (LogitTransform_forward (snd (LogitTransform_forward self (x0 # xs) False)) [y] True)
               = Inr [map (map (\<lambda>v. ((2 * v - 1) * scaling self + 1) / 2)) x0]"
proof -
  define sc where "sc = (\<lambda>v. ((2 * v - 1) * scaling self + 1) / 2)"
  define lg where "lg = (\<lambda>z. safe_log z - safe_log (1 - z))"
  have key: "sigmoid (lg (sc v)) = sc v" if "r \<in> set x0" "v \<in> set r" for r v
  proof -
    have b: "1 / 10 ^ 22 \<le> sc v" "sc v \<le> 1 - 1 / 10 ^ 22"
      using assms that unfolding sc_def by blast+
    have "(0 :: real) < 1 / 10 ^ 22" by simp
    then have p: "0 < sc v" "0 < 1 - sc v" using b by linarith+
    have "1 / 10 ^ 22 \<le> 1 - sc v" using b by linarith
    then have "safe_log (sc v) = ln (sc v)" "safe_log (1 - sc v) = ln (1 - sc v)"
      using b by (simp_all only: safe_log_pos)
    then show ?thesis using sigmoid_logit[OF p] by (simp add: lg_def)
  qed
  have "map (map sigmoid) (map (map lg) (map (map sc) x0)) = map (map sc) x0"
    by (simp add: comp_def key cong: map_cong)
  then show ?thesis
    unfolding sc_def lg_def
    by (simp add: LogitTransform_forward_def Let_def del: map_map)
qed

end
